theory Spec2Isabelle
  imports
    Main
    "HOL-Library.Char_ord"
    "HOL-Library.List_Lexorder"
    "HOL-Library.AList"
begin

section \<open>The ROM source scraper: \<^verbatim>\<open>scripts/scrape_rom_sources.py\<close>\<close>

text \<open>
  The orchestrator enumerates platforms from a database, skips the ones whose result file
  exists, calls an external process for each remaining platform, validates the CSV file the
  process wrote at a temporary path, renames it into place, and finally merges all CSV files
  of the output directory into one.

  Modelling decisions.
  \<^item> A string is a list of \<^typ>\<open>char\<close>, read as code points below 256. On these
    \<^verbatim>\<open>str.lower\<close> changes exactly the ASCII capitals and the Latin-1 capitals.
  \<^item> The output directory \<^verbatim>\<open>OUTPUT_DIR\<close> is an association list from file names to
    file contents. The type of contents is a parameter \<open>'c\<close>; what \<^verbatim>\<open>open\<close> followed by
    \<^verbatim>\<open>csv.DictReader\<close> does on a content is a parameter \<open>rd\<close>, and what
    \<^verbatim>\<open>csv.DictWriter\<close> writes is a parameter \<open>wr\<close>: both are library code.
  \<^item> The external process is a parameter \<open>worker\<close>: from the prompt it is given to an
    outcome. It writes at the path named in its prompt and nowhere else.
  \<^item> Every filesystem and process operation is recorded as an event, in the order of the
    source; the store after a run is the replay of the events.
\<close>

subsection \<open>Constants\<close>

definition CSV_HEADER :: string where
  "CSV_HEADER = ''platform,source_name,url,content_type,set_format,download_method,size,requires_login,requires_bios,bios_included,bios_source,recommended,notes''"

definition SKIP_PLATFORMS :: "string list" where
  "SKIP_PLATFORMS =
     [''Windows'', ''Linux'', ''Sony Playstation 5'', ''Microsoft Xbox Series X/S'',
      ''Android'', ''Apple iOS'', ''Apple Mac OS'', ''Web Browser'']"

definition COMBINED_CSV :: string where
  "COMBINED_CSV = ''all_rom_sources.csv''"

text \<open>\<^verbatim>\<open>str.split(sep)\<close> with a one-character separator.\<close>

fun split_on :: "char \<Rightarrow> string \<Rightarrow> string list" where
  "split_on d [] = [[]]"
| "split_on d (c # cs) =
     (if c = d then [] # split_on d cs
      else (case split_on d cs of [] \<Rightarrow> [[c]] | w # ws \<Rightarrow> (c # w) # ws))"

definition fieldnames :: "string list" where
  "fieldnames = split_on CHR '','' CSV_HEADER"

subsection \<open>\<^verbatim>\<open>platform_to_filename\<close>\<close>

definition is_lower_alnum :: "char \<Rightarrow> bool" where
  "is_lower_alnum c =
     (let n = (of_char c :: nat) in (97 \<le> n \<and> n \<le> 122) \<or> (48 \<le> n \<and> n \<le> 57))"

definition lower_char :: "char \<Rightarrow> char" where
  "lower_char c =
     (let n = (of_char c :: nat)
      in if (65 \<le> n \<and> n \<le> 90) \<or> (192 \<le> n \<and> n \<le> 214) \<or> (216 \<le> n \<and> n \<le> 222)
         then char_of (n + 32) else c)"

definition lower :: "string \<Rightarrow> string" where
  "lower s = map lower_char s"

text \<open>\<^verbatim>\<open>re.sub(r'[^a-z0-9]+', '_', name)\<close>: every maximal run of other characters becomes one underscore.\<close>

function sub_non_alnum :: "string \<Rightarrow> string" where
  "sub_non_alnum [] = []"
| "sub_non_alnum (c # cs) =
     (if is_lower_alnum c then c # sub_non_alnum cs
      else CHR ''_'' # sub_non_alnum (dropWhile (\<lambda>d. \<not> is_lower_alnum d) cs))"
  by pat_completeness auto
termination
  by (relation "measure length") (auto simp: length_dropWhile_le less_Suc_eq_le)

text \<open>\<^verbatim>\<open>re.sub(r'_+', '_', name)\<close>.\<close>

function sub_underscores :: "string \<Rightarrow> string" where
  "sub_underscores [] = []"
| "sub_underscores (c # cs) =
     (if c = CHR ''_'' then CHR ''_'' # sub_underscores (dropWhile (\<lambda>d. d = CHR ''_'') cs)
      else c # sub_underscores cs)"
  by pat_completeness auto
termination
  by (relation "measure length") (auto simp: length_dropWhile_le less_Suc_eq_le)

text \<open>\<^verbatim>\<open>name.strip('_')\<close>.\<close>

definition strip_underscores :: "string \<Rightarrow> string" where
  "strip_underscores s =
     rev (dropWhile (\<lambda>d. d = CHR ''_'') (rev (dropWhile (\<lambda>d. d = CHR ''_'') s)))"

definition platform_to_filename :: "string \<Rightarrow> string" where
  "platform_to_filename platform =
     strip_underscores (sub_underscores (sub_non_alnum (lower platform))) @ ''.csv''"




subsection \<open>The output directory\<close>

type_synonym 'c store = "(string \<times> 'c) list"

definition path_exists :: "'c store \<Rightarrow> string \<Rightarrow> bool" where
  "path_exists fs p = (case map_of fs p of None \<Rightarrow> False | Some c \<Rightarrow> True)"

definition is_done :: "'c store \<Rightarrow> string \<Rightarrow> bool" where
  "is_done fs platform = path_exists fs (platform_to_filename platform)"

definition ends_with :: "string \<Rightarrow> string \<Rightarrow> bool" where
  "ends_with suf s = (length suf \<le> length s \<and> drop (length s - length suf) s = suf)"

definition starts_with :: "string \<Rightarrow> string \<Rightarrow> bool" where
  "starts_with pre s = (take (length pre) s = pre)"

text \<open>\<^verbatim>\<open>OUTPUT_DIR.glob("*.csv")\<close> and \<^verbatim>\<open>OUTPUT_DIR.glob(".*.tmp")\<close>; \<^verbatim>\<open>pathlib\<close> lets \<^verbatim>\<open>*\<close> match a leading dot.\<close>

definition glob_csv :: "'c store \<Rightarrow> string list" where
  "glob_csv fs = [n \<leftarrow> map fst fs. ends_with ''.csv'' n]"

definition is_tmp_name :: "string \<Rightarrow> bool" where
  "is_tmp_name n = (5 \<le> length n \<and> starts_with ''.'' n \<and> ends_with ''.tmp'' n)"

definition glob_tmp :: "'c store \<Rightarrow> string list" where
  "glob_tmp fs = [n \<leftarrow> map fst fs. is_tmp_name n]"

subsection \<open>Events and their effect on the directory\<close>

record prompt =
  p_platform :: string
  p_output_path :: string
  p_csv_header :: string

datatype 'c event =
    Popen prompt
  | Kill
  | Wait
  | Sleep
  | Unlink string
  | WorkerWrite string 'c
  | Rename string string
  | WriteCombined 'c

fun effect :: "'c store \<Rightarrow> 'c event \<Rightarrow> 'c store" where
  "effect fs (Unlink p) = AList.delete p fs"
| "effect fs (WorkerWrite p c) = AList.update p c fs"
| "effect fs (Rename src dst) =
     (case map_of fs src of None \<Rightarrow> fs | Some c \<Rightarrow> AList.update dst c (AList.delete src fs))"
| "effect fs (WriteCombined c) = AList.update COMBINED_CSV c fs"
| "effect fs (Popen pr) = fs"
| "effect fs Kill = fs"
| "effect fs Wait = fs"
| "effect fs Sleep = fs"

text \<open>The paths an event can change, and the paths it can leave without a file.\<close>

fun touches :: "'c event \<Rightarrow> string list" where
  "touches (Unlink p) = [p]"
| "touches (WorkerWrite p c) = [p]"
| "touches (Rename src dst) = [src, dst]"
| "touches (WriteCombined c) = [COMBINED_CSV]"
| "touches (Popen pr) = []"
| "touches Kill = []"
| "touches Wait = []"
| "touches Sleep = []"

fun removes :: "'c event \<Rightarrow> string list" where
  "removes (Unlink p) = [p]"
| "removes (Rename src dst) = [src]"
| "removes (WorkerWrite p c) = []"
| "removes (WriteCombined c) = []"
| "removes (Popen pr) = []"
| "removes Kill = []"
| "removes Wait = []"
| "removes Sleep = []"

definition fs_after :: "'c store \<Rightarrow> 'c event list \<Rightarrow> 'c store" where
  "fs_after fs evs = foldl effect fs evs"

text \<open>Every state the directory goes through: the store after each prefix of the events.\<close>

fun fs_trace :: "'c store \<Rightarrow> 'c event list \<Rightarrow> 'c store list" where
  "fs_trace fs [] = [fs]"
| "fs_trace fs (e # evs) = fs # fs_trace (effect fs e) evs"

subsection \<open>Reading a CSV file\<close>

datatype pyval = PyNone | PyStr string

text \<open>A row of \<^verbatim>\<open>csv.DictReader\<close>: a dictionary from field names to values, as an association list.\<close>

type_synonym row = "(string \<times> pyval) list"

text \<open>
  What \<^verbatim>\<open>open(path)\<close>, \<^verbatim>\<open>csv.DictReader(f)\<close> and the iteration over the reader do on one
  file: either opening the file or reading its header raises, or the header is read
  (\<open>None\<close> for an empty file) and the iteration yields rows, and then ends or raises.
\<close>

datatype read_run =
    ReadError string
  | Reads "string list option" "row list" "string option"

datatype verdict =
    Valid nat
  | MissingColumns "string set"
  | NoDataRows
  | InvalidCSV string

text \<open>The validation inside \<^verbatim>\<open>process_platform\<close>, in the order of the source.\<close>

definition validate_csv :: "read_run \<Rightarrow> verdict" where
  "validate_csv r =
     (case r of
        ReadError e \<Rightarrow> InvalidCSV e
      | Reads fns rows err \<Rightarrow>
          (let expected = set fieldnames;
               actual = set (case fns of None \<Rightarrow> [] | Some f \<Rightarrow> f)
           in if \<not> expected \<subseteq> actual then MissingColumns (expected - actual)
              else (case err of
                      Some e \<Rightarrow> InvalidCSV e
                    | None \<Rightarrow> (case rows of [] \<Rightarrow> NoDataRows | r # rs \<Rightarrow> Valid (length rows)))))"

subsection \<open>\<^verbatim>\<open>process_platform\<close>\<close>

datatype stderr = StderrEmpty | StderrText string | StderrUndecodable string

text \<open>
  What the external process does in one call: \<^verbatim>\<open>Popen\<close> raises; or the process runs, the
  file at the path of its prompt goes through the listed contents (none: it writes no file),
  and then \<^verbatim>\<open>communicate\<close> raises \<^verbatim>\<open>TimeoutExpired\<close>, is interrupted from the keyboard, or
  returns with an exit code and the bytes of stderr.
\<close>

datatype 'c outcome =
    SpawnError string
  | TimedOut "'c list"
  | Interrupted "'c list"
  | Exited int stderr "'c list"

datatype message =
    WouldProcess string
  | Created string nat
  | FailedStderr string
  | FailedNoOutput
  | FailedMissingColumns "string set"
  | FailedNoDataRows
  | FailedInvalidCSV string
  | TimeoutMsg
  | ErrorMsg string

datatype result =
    Returned string bool message
  | KeyboardInterrupt

definition worker_writes :: "prompt \<Rightarrow> 'c list \<Rightarrow> 'c event list" where
  "worker_writes pr ws = map (WorkerWrite (p_output_path pr)) ws"

definition tmp_path_of :: "string \<Rightarrow> string" where
  "tmp_path_of filename = ''.'' @ filename @ ''.tmp''"

text \<open>
  \<^verbatim>\<open>PROMPT_TEMPLATE.format(platform=platform, output_path=tmp_path, csv_header=CSV_HEADER)\<close>:
  the prompt tells the external process to write at the temporary path.
\<close>

definition prompt_of :: "string \<Rightarrow> prompt" where
  "prompt_of platform =
     \<lparr>p_platform = platform,
      p_output_path = tmp_path_of (platform_to_filename platform),
      p_csv_header = CSV_HEADER\<rparr>"

definition is_spawn :: "'c event \<Rightarrow> bool" where
  "is_spawn e = (case e of Popen pr \<Rightarrow> True | _ \<Rightarrow> False)"

definition process_platform ::
  "('c \<Rightarrow> read_run) \<Rightarrow> (prompt \<Rightarrow> 'c outcome) \<Rightarrow> string \<Rightarrow> bool \<Rightarrow> 'c store
     \<Rightarrow> result \<times> 'c event list" where
  "process_platform rd worker platform dry_run fs =
     (let filename = platform_to_filename platform;
          output_path = filename;
          tmp_path = tmp_path_of filename;
          pr = prompt_of platform
      in if dry_run then (Returned platform True (WouldProcess filename), [])
         else
           (case worker pr of
              SpawnError e \<Rightarrow>
                (Returned platform False (ErrorMsg e),
                 [Unlink tmp_path, Popen pr, Unlink tmp_path])
            | TimedOut ws \<Rightarrow>
                (Returned platform False TimeoutMsg,
                 [Unlink tmp_path, Popen pr] @ worker_writes pr ws @ [Kill, Wait, Unlink tmp_path])
            | Interrupted ws \<Rightarrow>
                (KeyboardInterrupt,
                 [Unlink tmp_path, Popen pr] @ worker_writes pr ws @ [Kill, Wait, Unlink tmp_path])
            | Exited code err ws \<Rightarrow>
                (let evs = [Unlink tmp_path, Popen pr] @ worker_writes pr ws
                 in case map_of (fs_after fs evs) tmp_path of
                      None \<Rightarrow>
                        (case err of
                           StderrEmpty \<Rightarrow>
                             (Returned platform False FailedNoOutput, evs @ [Unlink tmp_path])
                         | StderrText s \<Rightarrow>
                             (Returned platform False (FailedStderr (take 200 s)),
                              evs @ [Unlink tmp_path])
                         | StderrUndecodable e \<Rightarrow>
                             (Returned platform False (ErrorMsg e),
                              evs @ [Unlink tmp_path, Unlink tmp_path]))
                    | Some c \<Rightarrow>
                        (case validate_csv (rd c) of
                           MissingColumns missing \<Rightarrow>
                             (Returned platform False (FailedMissingColumns missing),
                              evs @ [Unlink tmp_path])
                         | NoDataRows \<Rightarrow>
                             (Returned platform False FailedNoDataRows, evs @ [Unlink tmp_path])
                         | InvalidCSV e \<Rightarrow>
                             (Returned platform False (FailedInvalidCSV e), evs @ [Unlink tmp_path])
                         | Valid n \<Rightarrow>
                             (Returned platform True (Created filename n),
                              evs @ [Rename tmp_path output_path])))))"

definition succeeded :: "result \<Rightarrow> bool" where
  "succeeded r = (case r of Returned p ok m \<Rightarrow> ok | KeyboardInterrupt \<Rightarrow> False)"

subsection \<open>\<^verbatim>\<open>combine_all_csvs\<close> and \<^verbatim>\<open>cleanup_temp_files\<close>\<close>

text \<open>The body of the \<^verbatim>\<open>try\<close> for one file: the rows appended, and the error caught, if any.\<close>

definition read_file :: "('c \<Rightarrow> read_run) \<Rightarrow> 'c store \<Rightarrow> string \<Rightarrow> row list \<times> string option" where
  "read_file rd fs n =
     (case map_of fs n of
        None \<Rightarrow> ([], Some ''FileNotFoundError'')
      | Some c \<Rightarrow>
          (case rd c of
             ReadError e \<Rightarrow> ([], Some e)
           | Reads fns rows err \<Rightarrow> (rows, err)))"

definition scanned_files :: "'c store \<Rightarrow> string list" where
  "scanned_files fs = [n \<leftarrow> sort (glob_csv fs). n \<noteq> ''all_rom_sources.csv'']"

text \<open>\<^verbatim>\<open>csv.writer\<close> writes \<^verbatim>\<open>None\<close> as the empty string.\<close>

definition cell_text :: "pyval \<Rightarrow> string" where
  "cell_text v = (case v of PyNone \<Rightarrow> [] | PyStr s \<Rightarrow> s)"

definition clean_row :: "row \<Rightarrow> pyval list" where
  "clean_row r = map (\<lambda>k. case map_of r k of None \<Rightarrow> PyStr [] | Some v \<Rightarrow> v) fieldnames"

record 'c combined =
  row_count :: nat
  warnings :: "(string \<times> string) list"
  written_rows :: "string list list"
  combine_events :: "'c event list"

definition combine_all_csvs ::
  "('c \<Rightarrow> read_run) \<Rightarrow> (string list \<Rightarrow> string list list \<Rightarrow> 'c) \<Rightarrow> 'c store \<Rightarrow> 'c combined" where
  "combine_all_csvs rd wr fs =
     (let reads = map (\<lambda>n. (n, read_file rd fs n)) (scanned_files fs);
          all_rows = concat (map (\<lambda>(n, rows, err). rows) reads);
          warns = concat (map (\<lambda>(n, rows, err). case err of None \<Rightarrow> [] | Some e \<Rightarrow> [(n, e)]) reads)
      in case all_rows of
           [] \<Rightarrow> \<lparr>row_count = 0, warnings = warns, written_rows = [], combine_events = []\<rparr>
         | r # rs \<Rightarrow>
             (let cells = map (\<lambda>row. map cell_text (clean_row row)) all_rows
              in \<lparr>row_count = length all_rows, warnings = warns, written_rows = cells,
                  combine_events = [WriteCombined (wr fieldnames cells)]\<rparr>))"

text \<open>What one row becomes in the combined file: for each field of the header, in order, the
  text of the row's value, empty when the row has no such key or the value is \<^verbatim>\<open>None\<close>.\<close>

definition cells_of :: "row \<Rightarrow> string list" where
  "cells_of r = map (\<lambda>k. case map_of r k of Some (PyStr s) \<Rightarrow> s | _ \<Rightarrow> []) fieldnames"

definition cleanup_temp_files :: "'c store \<Rightarrow> 'c event list" where
  "cleanup_temp_files fs = map Unlink (glob_tmp fs)"

subsection \<open>The enumeration in \<^verbatim>\<open>get_platforms\<close> and \<^verbatim>\<open>main\<close>\<close>

text \<open>
  \<open>get_platforms\<close> takes the rows of its SQL query (platform name and game count, grouped
  by name, ordered by name) as they come from the database.
\<close>

definition get_platforms :: "(string \<times> int) list \<Rightarrow> int \<Rightarrow> (string \<times> int) list" where
  "get_platforms db_rows min_games = [(name, count) \<leftarrow> db_rows. count \<ge> min_games]"

text \<open>Line 277 of \<^verbatim>\<open>main\<close>, and the list \<^verbatim>\<open>platforms\<close> it gives from the rows of the database.\<close>

definition filter_skipped :: "(string \<times> int) list \<Rightarrow> (string \<times> int) list" where
  "filter_skipped all_platforms =
     [(name, count) \<leftarrow> all_platforms. name \<notin> set SKIP_PLATFORMS]"

definition eligible_platforms :: "(string \<times> int) list \<Rightarrow> int \<Rightarrow> (string \<times> int) list" where
  "eligible_platforms db_rows min_games = filter_skipped (get_platforms db_rows min_games)"

record args =
  arg_parallel :: int
  arg_dry_run :: bool
  arg_platform :: "string option"
  arg_combine_only :: bool
  arg_min_games :: int
  arg_limit :: int

datatype selection =
    NotFound
  | Selected "string list" bool

text \<open>
  Lines 274 to 298 of \<^verbatim>\<open>main\<close>: the names to process, and whether the note
  "is normally skipped but processing since explicitly requested" is printed.
  \<^verbatim>\<open>if args.platform\<close> is false for a missing option and for the empty string.
\<close>

definition apply_limit :: "int \<Rightarrow> string list \<Rightarrow> string list" where
  "apply_limit lim names = (if lim > 0 then take (nat lim) names else names)"

definition select_remaining :: "args \<Rightarrow> (string \<times> int) list \<Rightarrow> 'c store \<Rightarrow> selection" where
  "select_remaining a db_rows fs =
     (let all_platforms = get_platforms db_rows (arg_min_games a);
          platforms = filter_skipped all_platforms;
          requested = (case arg_platform a of None \<Rightarrow> [] | Some p \<Rightarrow> p)
      in if requested \<noteq> [] then
           (case [(name, count) \<leftarrow> platforms. name = requested] of
              m # ms \<Rightarrow> Selected (apply_limit (arg_limit a) [fst m]) False
            | [] \<Rightarrow>
                (case [(name, count) \<leftarrow> all_platforms. name = requested] of
                   m # ms \<Rightarrow> Selected (apply_limit (arg_limit a) [fst m]) True
                 | [] \<Rightarrow> NotFound))
         else Selected (apply_limit (arg_limit a) [name \<leftarrow> map fst platforms. \<not> is_done fs name]) False)"

subsection \<open>One call of \<^verbatim>\<open>process_platform\<close>, step by step\<close>

text \<open>
  In parallel mode several calls of \<^verbatim>\<open>process_platform\<close> run in threads of one pool and
  share the directory. Here the same code is cut into its atomic steps, each reading the
  directory as it is when the step runs: the leftover unlink, \<^verbatim>\<open>Popen\<close>, each write of the
  external process, the return of \<^verbatim>\<open>communicate\<close>, the existence test, the validation,
  the rename, and the unlink before a failing return.
\<close>

datatype ending = EndTimeout | EndInterrupt | EndExit int stderr

datatype 'c phase =
    PStart
  | PSpawn
  | PRunning ending "'c list"
  | PCheck stderr
  | PValidate
  | PRename nat
  | PCleanup result
  | PDone result

definition task_step ::
  "('c \<Rightarrow> read_run) \<Rightarrow> (prompt \<Rightarrow> 'c outcome) \<Rightarrow> string \<Rightarrow> 'c phase \<Rightarrow> 'c store
     \<Rightarrow> 'c phase \<times> 'c event list" where
  "task_step rd worker platform ph fs =
     (let filename = platform_to_filename platform;
          output_path = filename;
          tmp_path = tmp_path_of filename;
          pr = prompt_of platform
      in case ph of
           PStart \<Rightarrow> (PSpawn, [Unlink tmp_path])
         | PSpawn \<Rightarrow>
             (case worker pr of
                SpawnError e \<Rightarrow> (PCleanup (Returned platform False (ErrorMsg e)), [Popen pr])
              | TimedOut ws \<Rightarrow> (PRunning EndTimeout ws, [Popen pr])
              | Interrupted ws \<Rightarrow> (PRunning EndInterrupt ws, [Popen pr])
              | Exited code err ws \<Rightarrow> (PRunning (EndExit code err) ws, [Popen pr]))
         | PRunning e ws \<Rightarrow>
             (case ws of
                w # ws' \<Rightarrow> (PRunning e ws', [WorkerWrite (p_output_path pr) w])
              | [] \<Rightarrow>
                  (case e of
                     EndTimeout \<Rightarrow> (PCleanup (Returned platform False TimeoutMsg), [Kill, Wait])
                   | EndInterrupt \<Rightarrow> (PCleanup KeyboardInterrupt, [Kill, Wait])
                   | EndExit code err \<Rightarrow> (PCheck err, [])))
         | PCheck err \<Rightarrow>
             (if path_exists fs tmp_path then (PValidate, [])
              else (case err of
                      StderrEmpty \<Rightarrow>
                        (PDone (Returned platform False FailedNoOutput), [Unlink tmp_path])
                    | StderrText s \<Rightarrow>
                        (PDone (Returned platform False (FailedStderr (take 200 s))),
                         [Unlink tmp_path])
                    | StderrUndecodable e \<Rightarrow>
                        (PCleanup (Returned platform False (ErrorMsg e)), [Unlink tmp_path])))
         | PValidate \<Rightarrow>
             (case map_of fs tmp_path of
                None \<Rightarrow>
                  (PCleanup (Returned platform False (FailedInvalidCSV ''FileNotFoundError'')), [])
              | Some c \<Rightarrow>
                  (case validate_csv (rd c) of
                     MissingColumns missing \<Rightarrow>
                       (PCleanup (Returned platform False (FailedMissingColumns missing)), [])
                   | NoDataRows \<Rightarrow> (PCleanup (Returned platform False FailedNoDataRows), [])
                   | InvalidCSV e \<Rightarrow> (PCleanup (Returned platform False (FailedInvalidCSV e)), [])
                   | Valid n \<Rightarrow> (PRename n, [])))
         | PRename n \<Rightarrow>
             (if path_exists fs tmp_path
              then (PDone (Returned platform True (Created filename n)),
                    [Rename tmp_path output_path])
              else (PCleanup (Returned platform False (ErrorMsg ''FileNotFoundError'')), []))
         | PCleanup r \<Rightarrow> (PDone r, [Unlink tmp_path])
         | PDone r \<Rightarrow> (PDone r, []))"

subsection \<open>The two loops of \<^verbatim>\<open>main\<close>\<close>

record 'c run =
  r_dispatched :: "string list"
  r_success :: nat
  r_fail :: nat
  r_cancelled :: bool
  r_events :: "'c event list"

text \<open>
  The sequential loop (\<^verbatim>\<open>args.parallel == 1\<close>). A \<^verbatim>\<open>KeyboardInterrupt\<close> raised by
  \<^verbatim>\<open>process_platform\<close> leaves the loop.
\<close>

fun run_sequential ::
  "('c \<Rightarrow> read_run) \<Rightarrow> (prompt \<Rightarrow> 'c outcome) \<Rightarrow> string list \<Rightarrow> 'c store \<Rightarrow> 'c run" where
  "run_sequential rd worker [] fs =
     \<lparr>r_dispatched = [], r_success = 0, r_fail = 0, r_cancelled = False, r_events = []\<rparr>"
| "run_sequential rd worker (p # ps) fs =
     (case process_platform rd worker p False fs of
        (KeyboardInterrupt, evs) \<Rightarrow>
          \<lparr>r_dispatched = [p], r_success = 0, r_fail = 0, r_cancelled = True, r_events = evs\<rparr>
      | (Returned q ok msg, evs) \<Rightarrow>
          (let r = run_sequential rd worker ps (fs_after fs (evs @ [Sleep]))
           in \<lparr>r_dispatched = p # r_dispatched r,
               r_success = (if ok then 1 else 0) + r_success r,
               r_fail = (if ok then 0 else 1) + r_fail r,
               r_cancelled = r_cancelled r,
               r_events = evs @ [Sleep] @ r_events r\<rparr>))"

text \<open>
  The pool loop (\<^verbatim>\<open>args.parallel != 1\<close>). \<open>pl_pending\<close> is the dictionary \<^verbatim>\<open>pending\<close>: the
  submitted calls not yet popped, each with the phase its thread has reached. \<open>pl_rest\<close> is
  what \<^verbatim>\<open>remaining_iter\<close> has not yielded yet.
\<close>

record 'c task =
  t_platform :: string
  t_phase :: "'c phase"

record 'c pool =
  pl_store :: "'c store"
  pl_pending :: "'c task list"
  pl_rest :: "string list"
  pl_run :: "'c run"

text \<open>\<^verbatim>\<open>p = next(remaining_iter, None); if p: pending[executor.submit(process_platform, p)] = p\<close>.
  The empty name is false in Python: it is taken from the iterator and not submitted.\<close>

definition submit_next :: "'c pool \<Rightarrow> 'c pool" where
  "submit_next pool =
     (case pl_rest pool of
        [] \<Rightarrow> pool
      | p # ps \<Rightarrow>
          (if p = [] then pool\<lparr>pl_rest := ps\<rparr>
           else pool\<lparr>pl_rest := ps,
                     pl_pending := pl_pending pool @ [\<lparr>t_platform = p, t_phase = PStart\<rparr>],
                     pl_run := (pl_run pool)\<lparr>r_dispatched := r_dispatched (pl_run pool) @ [p]\<rparr>\<rparr>))"

definition pool_init :: "nat \<Rightarrow> string list \<Rightarrow> 'c store \<Rightarrow> 'c pool" where
  "pool_init k names fs =
     (submit_next ^^ k)
       \<lparr>pl_store = fs, pl_pending = [], pl_rest = names,
        pl_run = \<lparr>r_dispatched = [], r_success = 0, r_fail = 0, r_cancelled = False,
                  r_events = []\<rparr>\<rparr>"

text \<open>
  What happens next in the pool: the thread of the \<open>i\<close>-th pending call takes one step; or
  the main thread pops the \<open>i\<close>-th pending call, which has returned, counts it and submits
  the next platform; or the main thread is interrupted from the keyboard. After an
  interrupt the main thread pops nothing more, and leaving the \<^verbatim>\<open>with\<close> block waits for the
  running calls.
\<close>

datatype action = Run nat | Collect nat | Interrupt

definition pool_step ::
  "('c \<Rightarrow> read_run) \<Rightarrow> (prompt \<Rightarrow> 'c outcome) \<Rightarrow> 'c pool \<Rightarrow> action \<Rightarrow> 'c pool" where
  "pool_step rd worker pool act =
     (case act of
        Run i \<Rightarrow>
          (if i < length (pl_pending pool) then
             (let t = pl_pending pool ! i;
                  (ph, evs) = task_step rd worker (t_platform t) (t_phase t) (pl_store pool)
              in pool\<lparr>pl_store := fs_after (pl_store pool) evs,
                       pl_pending := (pl_pending pool)[i := t\<lparr>t_phase := ph\<rparr>],
                       pl_run := (pl_run pool)\<lparr>r_events := r_events (pl_run pool) @ evs\<rparr>\<rparr>)
           else pool)
      | Collect i \<Rightarrow>
          (if i < length (pl_pending pool) \<and> \<not> r_cancelled (pl_run pool) then
             (case t_phase (pl_pending pool ! i) of
                PDone res \<Rightarrow>
                  (let others = take i (pl_pending pool) @ drop (Suc i) (pl_pending pool)
                   in case res of
                        KeyboardInterrupt \<Rightarrow>
                          pool\<lparr>pl_pending := others,
                               pl_run := (pl_run pool)\<lparr>r_cancelled := True\<rparr>\<rparr>
                      | Returned q ok msg \<Rightarrow>
                          submit_next
                            (pool\<lparr>pl_pending := others,
                                  pl_run := (pl_run pool)
                                    \<lparr>r_success := r_success (pl_run pool) + (if ok then 1 else 0),
                                     r_fail := r_fail (pl_run pool) + (if ok then 0 else 1)\<rparr>\<rparr>))
              | PStart \<Rightarrow> pool
              | PSpawn \<Rightarrow> pool
              | PRunning e ws \<Rightarrow> pool
              | PCheck err \<Rightarrow> pool
              | PValidate \<Rightarrow> pool
              | PRename n \<Rightarrow> pool
              | PCleanup r \<Rightarrow> pool)
           else pool)
      | Interrupt \<Rightarrow> pool\<lparr>pl_run := (pl_run pool)\<lparr>r_cancelled := True\<rparr>\<rparr>)"

definition is_returned :: "'c task \<Rightarrow> bool" where
  "is_returned t = (case t_phase t of PDone r \<Rightarrow> True | _ \<Rightarrow> False)"

definition pool_finished :: "'c pool \<Rightarrow> bool" where
  "pool_finished pool =
     (if r_cancelled (pl_run pool) then list_all is_returned (pl_pending pool)
      else pl_pending pool = [])"

definition pool_run ::
  "('c \<Rightarrow> read_run) \<Rightarrow> (prompt \<Rightarrow> 'c outcome) \<Rightarrow> nat \<Rightarrow> string list \<Rightarrow> action list
     \<Rightarrow> 'c store \<Rightarrow> 'c pool" where
  "pool_run rd worker k names sched fs = foldl (pool_step rd worker) (pool_init k names fs) sched"

subsection \<open>\<^verbatim>\<open>main\<close>\<close>

text \<open>
  \<open>main\<close> takes the parsed arguments, the rows of the database query, the directory, the
  external process and, for parallel mode, the order in which the threads take their
  steps. It ends with \<^verbatim>\<open>sys.exit(1)\<close>, with the uncaught \<^verbatim>\<open>ValueError\<close> of a pool of no
  workers, or normally; \<open>Unfinished\<close> says that the given order of steps stops before the
  pool loop does.
\<close>

datatype 'c main_result =
    SysExit int
  | Crashed string
  | Unfinished
  | Finished "'c run"

definition no_run :: "'c event list \<Rightarrow> 'c run" where
  "no_run evs =
     \<lparr>r_dispatched = [], r_success = 0, r_fail = 0, r_cancelled = False, r_events = evs\<rparr>"

text \<open>Lines 366 to 374: the cleanup after a cancellation, and the final combination.\<close>

definition finish_run ::
  "('c \<Rightarrow> read_run) \<Rightarrow> (string list \<Rightarrow> string list list \<Rightarrow> 'c) \<Rightarrow> 'c store \<Rightarrow> 'c run \<Rightarrow> 'c run" where
  "finish_run rd wr fs r =
     (let fs1 = fs_after fs (r_events r);
          cleanup = (if r_cancelled r then cleanup_temp_files fs1 else []);
          fs2 = fs_after fs1 cleanup
      in r\<lparr>r_events := r_events r @ cleanup @ combine_events (combine_all_csvs rd wr fs2)\<rparr>)"

definition main ::
  "args \<Rightarrow> (string \<times> int) list \<Rightarrow> ('c \<Rightarrow> read_run) \<Rightarrow> (string list \<Rightarrow> string list list \<Rightarrow> 'c)
     \<Rightarrow> (prompt \<Rightarrow> 'c outcome) \<Rightarrow> action list \<Rightarrow> 'c store \<Rightarrow> 'c main_result" where
  "main a db_rows rd wr worker sched fs =
     (if arg_combine_only a then Finished (no_run (combine_events (combine_all_csvs rd wr fs)))
      else
        (case select_remaining a db_rows fs of
           NotFound \<Rightarrow> SysExit 1
         | Selected remaining_names note \<Rightarrow>
             (case remaining_names of
                [] \<Rightarrow> Finished (no_run (combine_events (combine_all_csvs rd wr fs)))
              | n # ns \<Rightarrow>
                  (if arg_dry_run a then Finished (no_run [])
                   else if arg_parallel a = 1
                   then Finished (finish_run rd wr fs (run_sequential rd worker remaining_names fs))
                   else if arg_parallel a \<le> 0 then Crashed ''ValueError''
                   else
                     (let pool = pool_run rd worker (nat (arg_parallel a)) remaining_names sched fs
                      in if pool_finished pool then Finished (finish_run rd wr fs (pl_run pool))
                         else Unfinished)))))"

subsection \<open>Predicates used to state the properties\<close>

text \<open>
  An event is owned by a list of platforms when the only paths it can change are the
  temporary path and the final path of one of them, and the only path it can leave empty is
  such a temporary path. The invariant of the pool loop: at most \<open>k\<close> calls are pending, the
  platforms dispatched so far followed by the non-empty names still in the iterator are the
  non-empty names of the list, every pending call has been dispatched, the directory is the
  replay of the events, and every event is owned by the platforms dispatched. The
  housekeeping events are the ones of \<^verbatim>\<open>cleanup_temp_files\<close> and \<^verbatim>\<open>combine_all_csvs\<close>.
\<close>

definition owned_by :: "string list \<Rightarrow> 'c event \<Rightarrow> bool" where
  "owned_by ps e \<longleftrightarrow>
     (\<forall>q \<in> set (touches e). \<exists>p \<in> set ps.
        q = tmp_path_of (platform_to_filename p) \<or> q = platform_to_filename p) \<and>
     (\<forall>q \<in> set (removes e). \<exists>p \<in> set ps. q = tmp_path_of (platform_to_filename p))"

definition pool_inv :: "nat \<Rightarrow> string list \<Rightarrow> 'c store \<Rightarrow> 'c pool \<Rightarrow> bool" where
  "pool_inv k names fs pool \<longleftrightarrow>
     length (pl_pending pool) \<le> k \<and>
     r_dispatched (pl_run pool) @ filter (\<lambda>n. n \<noteq> []) (pl_rest pool) = filter (\<lambda>n. n \<noteq> []) names \<and>
     set (map t_platform (pl_pending pool)) \<subseteq> set (r_dispatched (pl_run pool)) \<and>
     pl_store pool = fs_after fs (r_events (pl_run pool)) \<and>
     (\<forall>e \<in> set (r_events (pl_run pool)). owned_by (r_dispatched (pl_run pool)) e)"

definition housekeeping :: "'c event \<Rightarrow> bool" where
  "housekeeping e \<longleftrightarrow> (\<exists>n. e = Unlink n \<and> is_tmp_name n) \<or> (\<exists>c. e = WriteCombined c)"

text \<open>
  While the pool loop runs and the iterator holds no empty name, the iterator is exhausted
  or a call is pending.
\<close>

definition pool_busy :: "'c pool \<Rightarrow> bool" where
  "pool_busy pool \<longleftrightarrow>
     [] \<notin> set (pl_rest pool) \<and>
     (r_cancelled (pl_run pool) \<or> pl_pending pool \<noteq> [] \<or> pl_rest pool = [])"

text \<open>A file that passes the validation of \<^verbatim>\<open>process_platform\<close>.\<close>

definition valid_file :: "('c \<Rightarrow> read_run) \<Rightarrow> 'c \<Rightarrow> bool" where
  "valid_file rd c = (case validate_csv (rd c) of Valid n \<Rightarrow> True | _ \<Rightarrow> False)"

text \<open>
  Every path that is not a temporary name holds in \<open>fs\<close> what it holds in \<open>fs0\<close>, or a file
  that passes the validation.
\<close>

definition no_partial :: "('c \<Rightarrow> read_run) \<Rightarrow> 'c store \<Rightarrow> 'c store \<Rightarrow> bool" where
  "no_partial rd fs0 fs \<longleftrightarrow>
     (\<forall>q. \<not> is_tmp_name q \<longrightarrow>
        map_of fs q = map_of fs0 q \<or> (\<exists>c. map_of fs q = Some c \<and> valid_file rd c))"

text \<open>
  What the pool keeps while the platforms have distinct file names: the pending calls and
  the platforms still to come have distinct file names, and a call that has validated its
  temporary file and not yet renamed it still has a valid file at its temporary path.
\<close>

definition pool_safe :: "('c \<Rightarrow> read_run) \<Rightarrow> 'c store \<Rightarrow> 'c pool \<Rightarrow> bool" where
  "pool_safe rd fs pool \<longleftrightarrow>
     no_partial rd fs (pl_store pool) \<and>
     distinct (map (\<lambda>t. platform_to_filename (t_platform t)) (pl_pending pool) @
               map platform_to_filename (filter (\<lambda>n. n \<noteq> []) (pl_rest pool))) \<and>
     (\<forall>t \<in> set (pl_pending pool). \<forall>n. t_phase t = PRename n \<longrightarrow>
        (\<exists>c. map_of (pl_store pool) (tmp_path_of (platform_to_filename (t_platform t))) = Some c \<and>
             valid_file rd c))"

section \<open>Properties\<close>

lemma fieldnames_eq:
  "fieldnames =
     [''platform'', ''source_name'', ''url'', ''content_type'', ''set_format'',
      ''download_method'', ''size'', ''requires_login'', ''requires_bios'', ''bios_included'',
      ''bios_source'', ''recommended'', ''notes'']"
  by code_simp

subsection \<open>The file name of a platform\<close>























subsection \<open>The enumeration\<close>

lemma get_platforms_filter: "get_platforms db_rows m = [r \<leftarrow> db_rows. m \<le> snd r]"
  by (simp add: get_platforms_def case_prod_unfold)

lemma filter_skipped_filter: "filter_skipped xs = [r \<leftarrow> xs. fst r \<notin> set SKIP_PLATFORMS]"
  by (simp add: filter_skipped_def case_prod_unfold)

lemma eligible_platforms_filter:
  "eligible_platforms db_rows m = [r \<leftarrow> db_rows. m \<le> snd r \<and> fst r \<notin> set SKIP_PLATFORMS]"
  by (simp add: eligible_platforms_def get_platforms_filter filter_skipped_filter conj_commute)

text \<open>
  C6. From the rows of the catalog and the minimum game count, the enumeration gives the
  names of exactly the rows whose count reaches the minimum and whose name is not in the
  skip set, in the order of the catalog: ascending by name when the catalog is, and without
  repetition when the catalog has none. For the catalog \<open>[("A",5),("B",40),("C",2)]\<close> and
  the minimum 10 it gives \<open>["B"]\<close>.
\<close>

theorem enumerator_eligible:
  "map fst (eligible_platforms db_rows m) =
     map fst [r \<leftarrow> db_rows. m \<le> snd r \<and> fst r \<notin> set SKIP_PLATFORMS] \<and>
   (sorted (map fst db_rows) \<longrightarrow> sorted (map fst (eligible_platforms db_rows m))) \<and>
   (distinct (map fst db_rows) \<longrightarrow> distinct (map fst (eligible_platforms db_rows m))) \<and>
   map fst (eligible_platforms [(''A'', 5), (''B'', 40), (''C'', 2)] 10) = [''B'']"
proof -
  have "map fst (eligible_platforms [(''A'', 5), (''B'', 40), (''C'', 2)] 10) = [''B'']"
    by code_simp
  moreover have "sorted (map fst [r \<leftarrow> db_rows. P r])" if "sorted (map fst db_rows)" for P
    using that by (induction db_rows) auto
  moreover have "distinct (map fst [r \<leftarrow> db_rows. P r])" if "distinct (map fst db_rows)" for P
    using that by (induction db_rows) auto
  ultimately show ?thesis
    by (simp add: eligible_platforms_filter)
qed

theorem enumerator_eligible_witness:
  "sorted (map fst [(''A'', 5::int), (''B'', 40), (''C'', 2), (''Windows'', 100)]) \<and>
   distinct (map fst [(''A'', 5::int), (''B'', 40), (''C'', 2), (''Windows'', 100)]) \<and>
   map fst (eligible_platforms [(''A'', 5), (''B'', 40), (''C'', 2), (''Windows'', 100)] 2) = [''A'', ''B'', ''C''] \<and>
   sorted (map fst (eligible_platforms [(''A'', 5), (''B'', 40), (''C'', 2), (''Windows'', 100)] 2))"
proof -
  have s: "sorted (map fst [(''A'', 5::int), (''B'', 40), (''C'', 2), (''Windows'', 100)])"
    by code_simp
  have d: "distinct (map fst [(''A'', 5::int), (''B'', 40), (''C'', 2), (''Windows'', 100)])"
    by code_simp
  have e: "map fst [r \<leftarrow> [(''A'', 5::int), (''B'', 40), (''C'', 2), (''Windows'', 100)].
             2 \<le> snd r \<and> fst r \<notin> set SKIP_PLATFORMS] = [''A'', ''B'', ''C'']"
    by code_simp
  show ?thesis
    using enumerator_eligible [of "[(''A'', 5), (''B'', 40), (''C'', 2), (''Windows'', 100)]" 2] s d e
    by simp
qed

lemma select_override:
  assumes "arg_platform a = Some p" "p \<noteq> []"
  shows "select_remaining a db_rows fs =
     (if \<exists>c. (p, c) \<in> set db_rows \<and> arg_min_games a \<le> c
      then Selected (apply_limit (arg_limit a) [p]) (p \<in> set SKIP_PLATFORMS)
      else NotFound)"
proof -
  have m1: "[(name, count) \<leftarrow> xs. name = p] = [] \<longleftrightarrow> \<not> (\<exists>c. (p, c) \<in> set xs)" for xs :: "(string \<times> int) list"
    by (auto simp: filter_empty_conv)
  have hd1: "fst m = p" if "[(name, count) \<leftarrow> xs. name = p] = m # ms" for xs :: "(string \<times> int) list" and m ms
  proof -
    have "m \<in> set [(name, count) \<leftarrow> xs. name = p]" using that by simp
    then show ?thesis by auto
  qed
  have inall: "(\<exists>c. (p, c) \<in> set (get_platforms db_rows (arg_min_games a))) \<longleftrightarrow>
               (\<exists>c. (p, c) \<in> set db_rows \<and> arg_min_games a \<le> c)"
    by (auto simp: get_platforms_filter)
  have inpl: "(\<exists>c. (p, c) \<in> set (filter_skipped (get_platforms db_rows (arg_min_games a)))) \<longleftrightarrow>
               (\<exists>c. (p, c) \<in> set db_rows \<and> arg_min_games a \<le> c) \<and> p \<notin> set SKIP_PLATFORMS"
    by (auto simp: get_platforms_filter filter_skipped_filter)
  show ?thesis
    using assms m1 [of "filter_skipped (get_platforms db_rows (arg_min_games a))"]
      m1 [of "get_platforms db_rows (arg_min_games a)"] inall inpl
    by (auto simp: select_remaining_def Let_def split: list.splits dest: hd1)
qed

lemma apply_limit_single: "apply_limit l [p] = [p]"
  by (cases "nat l") (auto simp: apply_limit_def)

lemma main_exit_iff:
  "\<not> arg_combine_only a \<Longrightarrow>
   main a db_rows rd wr worker sched fs = SysExit n \<longleftrightarrow>
     n = 1 \<and> select_remaining a db_rows fs = NotFound"
  by (auto simp: main_def Let_def split: selection.splits list.splits)

text \<open>
  C7 (as amended). With \<^verbatim>\<open>--platform p\<close> the run ends with \<^verbatim>\<open>sys.exit(1)\<close> exactly when
  the catalog has no row for \<open>p\<close> whose game count reaches \<^verbatim>\<open>--min-games\<close>. Otherwise
  exactly \<open>p\<close> is selected, also when it is in the skip set, and the note that it is
  normally skipped is printed exactly when it is in the skip set.
\<close>

theorem override_selection:
  assumes "arg_platform a = Some p" and "p \<noteq> []" and "\<not> arg_combine_only a"
  shows "(main a db_rows rd wr worker sched fs = SysExit 1 \<longleftrightarrow>
            \<not> (\<exists>c. (p, c) \<in> set db_rows \<and> arg_min_games a \<le> c)) \<and>
         (select_remaining a db_rows fs = NotFound \<longleftrightarrow>
            \<not> (\<exists>c. (p, c) \<in> set db_rows \<and> arg_min_games a \<le> c)) \<and>
         ((\<exists>c. (p, c) \<in> set db_rows \<and> arg_min_games a \<le> c) \<longrightarrow>
            select_remaining a db_rows fs = Selected [p] (p \<in> set SKIP_PLATFORMS))"
  using select_override [OF assms(1,2), of db_rows fs] main_exit_iff [OF assms(3), of db_rows rd wr worker sched fs 1]
  by (simp add: apply_limit_single)

theorem override_selection_witness:
  "main \<lparr>arg_parallel = 1, arg_dry_run = True, arg_platform = Some ''Windows'',
         arg_combine_only = False, arg_min_games = 10, arg_limit = 0\<rparr>
     [(''Vectrex'', 5), (''Windows'', 100)] (\<lambda>c. c) (\<lambda>h rs. ReadError [])
     (\<lambda>pr. SpawnError []) [] ([] :: read_run store) \<noteq> SysExit 1 \<and>
   select_remaining \<lparr>arg_parallel = 1, arg_dry_run = True, arg_platform = Some ''Windows'',
         arg_combine_only = False, arg_min_games = 10, arg_limit = 0\<rparr>
     [(''Vectrex'', 5), (''Windows'', 100)] ([] :: read_run store) = Selected [''Windows''] True"
proof -
  have "\<exists>c. (''Windows'', c) \<in> set [(''Vectrex'', 5), (''Windows'', 100)] \<and> (10 :: int) \<le> c"
    by (intro exI [of _ 100]) simp
  moreover have "''Windows'' \<in> set SKIP_PLATFORMS"
    by (simp add: SKIP_PLATFORMS_def)
  ultimately show ?thesis
    using override_selection [of "\<lparr>arg_parallel = 1, arg_dry_run = True,
        arg_platform = Some ''Windows'', arg_combine_only = False, arg_min_games = 10,
        arg_limit = 0\<rparr>" "''Windows''" "[(''Vectrex'', 5), (''Windows'', 100)]"
        "\<lambda>c. c" "\<lambda>h rs. ReadError []" "\<lambda>pr. SpawnError []" "[]" "[] :: read_run store"]
    by simp
qed

text \<open>
  C7 as stated fails: a platform of the catalog with fewer games than the minimum is
  reported as not found.
\<close>

theorem override_rejects_small_platform:
  "main \<lparr>arg_parallel = 1, arg_dry_run = False, arg_platform = Some ''Vectrex'',
         arg_combine_only = False, arg_min_games = 10, arg_limit = 0\<rparr>
     [(''Vectrex'', 5), (''Windows'', 100)] (\<lambda>c. c) (\<lambda>h rs. ReadError [])
     (\<lambda>pr. SpawnError []) [] ([] :: read_run store) = SysExit 1"
  by code_simp

subsection \<open>One call of \<^verbatim>\<open>process_platform\<close>\<close>

lemma map_of_effect:
  "map_of (effect fs (Unlink p)) = (map_of fs)(p := None)"
  "map_of (effect fs (WorkerWrite p c)) = (map_of fs)(p \<mapsto> c)"
  "map_of (effect fs (Rename src dst)) =
     (case map_of fs src of None \<Rightarrow> map_of fs | Some c \<Rightarrow> ((map_of fs)(src := None))(dst \<mapsto> c))"
  "map_of (effect fs (WriteCombined c)) = (map_of fs)(COMBINED_CSV \<mapsto> c)"
  "map_of (effect fs (Popen pr)) = map_of fs"
  "map_of (effect fs Kill) = map_of fs"
  "map_of (effect fs Wait) = map_of fs"
  "map_of (effect fs Sleep) = map_of fs"
  by (simp_all add: AList.delete_conv' AList.update_conv' split: option.splits)

declare effect.simps [simp del]

lemma fs_after_Nil: "fs_after fs [] = fs"
  by (simp add: fs_after_def)

lemma fs_after_Cons: "fs_after fs (e # evs) = fs_after (effect fs e) evs"
  by (simp add: fs_after_def)

lemma fs_after_append: "fs_after fs (xs @ ys) = fs_after (fs_after fs xs) ys"
  by (simp add: fs_after_def)

lemma path_exists_map_of: "path_exists fs p \<longleftrightarrow> map_of fs p \<noteq> None"
  by (simp add: path_exists_def split: option.splits)

lemma map_of_worker_writes:
  "map_of (fs_after fs (worker_writes pr ws)) q =
     (if ws \<noteq> [] \<and> q = p_output_path pr then Some (last ws) else map_of fs q)"
proof (induction ws arbitrary: fs)
  case Nil
  then show ?case by (simp add: worker_writes_def fs_after_Nil)
next
  case (Cons w ws)
  let ?fs' = "effect fs (WorkerWrite (p_output_path pr) w)"
  have step: "fs_after fs (worker_writes pr (w # ws)) = fs_after ?fs' (worker_writes pr ws)"
    by (simp add: worker_writes_def fs_after_Cons)
  show ?case
    unfolding step Cons [of ?fs'] by (simp add: map_of_effect)
qed

lemma map_of_after_run:
  "map_of (fs_after fs ([Unlink (p_output_path pr), Popen pr'] @ worker_writes pr ws)) q =
     (if q = p_output_path pr then (if ws = [] then None else Some (last ws)) else map_of fs q)"
  by (simp add: fs_after_Cons fs_after_append map_of_worker_writes map_of_effect)

lemma output_path_prompt: "p_output_path (prompt_of p) = tmp_path_of (platform_to_filename p)"
  by (simp add: prompt_of_def)

lemma tmp_path_neq: "tmp_path_of f \<noteq> platform_to_filename q"
proof
  assume "tmp_path_of f = platform_to_filename q"
  then have "last (tmp_path_of f) = last (platform_to_filename q)" by simp
  then show False by (simp add: tmp_path_of_def platform_to_filename_def)
qed

lemma process_platform_cases:
  fixes rd :: "'c \<Rightarrow> read_run" and p :: string
  defines "tmp \<equiv> tmp_path_of (platform_to_filename p)"
  defines "pr \<equiv> prompt_of p"
  obtains
    (spawn) e where "worker pr = SpawnError e"
      "process_platform rd worker p False fs =
         (Returned p False (ErrorMsg e), [Unlink tmp, Popen pr, Unlink tmp])"
  | (timeout) ws where "worker pr = TimedOut ws"
      "process_platform rd worker p False fs =
         (Returned p False TimeoutMsg,
          [Unlink tmp, Popen pr] @ worker_writes pr ws @ [Kill, Wait, Unlink tmp])"
  | (interrupt) ws where "worker pr = Interrupted ws"
      "process_platform rd worker p False fs =
         (KeyboardInterrupt,
          [Unlink tmp, Popen pr] @ worker_writes pr ws @ [Kill, Wait, Unlink tmp])"
  | (nofile) code err msg tail where "worker pr = Exited code err []"
      "tail = [Unlink tmp] \<or> tail = [Unlink tmp, Unlink tmp]"
      "process_platform rd worker p False fs =
         (Returned p False msg, [Unlink tmp, Popen pr] @ tail)"
  | (invalid) code err ws msg where "worker pr = Exited code err ws" "ws \<noteq> []"
      "\<forall>n. validate_csv (rd (last ws)) \<noteq> Valid n"
      "process_platform rd worker p False fs =
         (Returned p False msg, [Unlink tmp, Popen pr] @ worker_writes pr ws @ [Unlink tmp])"
  | (valid) code err ws n where "worker pr = Exited code err ws" "ws \<noteq> []"
      "validate_csv (rd (last ws)) = Valid n"
      "process_platform rd worker p False fs =
         (Returned p True (Created (platform_to_filename p) n),
          [Unlink tmp, Popen pr] @ worker_writes pr ws @ [Rename tmp (platform_to_filename p)])"
proof (cases "worker pr")
  case (SpawnError e)
  then show ?thesis
    using spawn by (simp add: process_platform_def Let_def pr_def tmp_def)
next
  case (TimedOut ws)
  then show ?thesis
    using timeout by (simp add: process_platform_def Let_def pr_def tmp_def)
next
  case (Interrupted ws)
  then show ?thesis
    using interrupt by (simp add: process_platform_def Let_def pr_def tmp_def)
next
  case (Exited code err ws)
  have m: "map_of (fs_after fs ([Unlink tmp, Popen pr] @ worker_writes pr ws)) tmp =
           (if ws = [] then None else Some (last ws))"
    using map_of_after_run [of fs pr pr ws tmp] by (simp add: pr_def tmp_def output_path_prompt)
  show ?thesis
  proof (cases "ws = []")
    case True
    show ?thesis
      using Exited True m nofile [of code err "[Unlink tmp]"]
        nofile [of code err "[Unlink tmp, Unlink tmp]"]
      by (cases err) (simp_all add: process_platform_def Let_def pr_def tmp_def worker_writes_def)
  next
    case False
    show ?thesis
    proof (cases "validate_csv (rd (last ws))")
      case (Valid n)
      then show ?thesis
        using Exited False m valid [of code err ws n]
        by (simp add: process_platform_def Let_def pr_def tmp_def)
    next
      case (MissingColumns x)
      then show ?thesis
        using Exited False m invalid [of code err ws]
        by (simp add: process_platform_def Let_def pr_def tmp_def)
    next
      case NoDataRows
      then show ?thesis
        using Exited False m invalid [of code err ws]
        by (simp add: process_platform_def Let_def pr_def tmp_def)
    next
      case (InvalidCSV e)
      then show ?thesis
        using Exited False m invalid [of code err ws]
        by (simp add: process_platform_def Let_def pr_def tmp_def)
    qed
  qed
qed


lemma validate_csv_Valid_iff:
  "validate_csv r = Valid n \<longleftrightarrow>
     (\<exists>fns rows. r = Reads (Some fns) rows None \<and> set fieldnames \<subseteq> set fns \<and>
        rows \<noteq> [] \<and> n = length rows)"
proof (cases r)
  case (ReadError e)
  then show ?thesis by (simp add: validate_csv_def)
next
  case (Reads fns rows err)
  have ne: "set fieldnames \<noteq> {}" by (simp add: fieldnames_eq)
  show ?thesis
    using Reads ne
    by (cases fns; cases err; cases rows) (auto simp: validate_csv_def Let_def)
qed

lemma spawn_filter_writes: "filter is_spawn (worker_writes pr ws) = []"
  by (induction ws) (simp_all add: worker_writes_def is_spawn_def)

lemma spawn_simps:
  "is_spawn (Popen pr)" "\<not> is_spawn (Unlink p)" "\<not> is_spawn Kill" "\<not> is_spawn Wait"
  "\<not> is_spawn (Rename a b)" "\<not> is_spawn (WorkerWrite p c)" "\<not> is_spawn Sleep"
  "\<not> is_spawn (WriteCombined c)"
  by (simp_all add: is_spawn_def)

lemmas after_simps =
  fs_after_Cons fs_after_Nil fs_after_append map_of_worker_writes map_of_effect output_path_prompt

lemma failed_call_effect:
  assumes run: "process_platform rd worker p False fs = (res, evs)" and fail: "\<not> succeeded res"
  shows "map_of (fs_after fs evs) = (map_of fs)(tmp_path_of (platform_to_filename p) := None) \<and>
         \<not> path_exists (fs_after fs evs) (tmp_path_of (platform_to_filename p)) \<and>
         map_of (fs_after fs evs) (platform_to_filename p) = map_of fs (platform_to_filename p) \<and>
         is_done (fs_after fs evs) p = is_done fs p \<and>
         filter is_spawn evs = [Popen (prompt_of p)] \<and>
         (\<forall>ws. worker (prompt_of p) = TimedOut ws \<longrightarrow>
            evs = [Unlink (tmp_path_of (platform_to_filename p)), Popen (prompt_of p)] @
                  worker_writes (prompt_of p) ws @
                  [Kill, Wait, Unlink (tmp_path_of (platform_to_filename p))])"
proof -
  let ?tmp = "tmp_path_of (platform_to_filename p)"
  let ?key = "platform_to_filename p"
  have pt: "map_of (fs_after fs evs) q = (if q = ?tmp then None else map_of fs q)" for q
  proof (cases rule: process_platform_cases [of worker p rd fs])
    case (spawn e)
    then show ?thesis using run by (auto simp: after_simps)
  next
    case (timeout ws)
    then show ?thesis using run by (auto simp: after_simps)
  next
    case (interrupt ws)
    then show ?thesis using run by (auto simp: after_simps)
  next
    case (nofile code err msg tail)
    then show ?thesis using run by (auto simp: after_simps)
  next
    case (invalid code err ws msg)
    then show ?thesis using run by (auto simp: after_simps)
  next
    case (valid code err ws n)
    then show ?thesis using run fail by (simp add: succeeded_def)
  qed
  have sp: "filter is_spawn evs = [Popen (prompt_of p)]"
    by (cases rule: process_platform_cases [of worker p rd fs])
       (use run in \<open>auto simp: spawn_filter_writes spawn_simps\<close>)
  have tm: "evs = [Unlink ?tmp, Popen (prompt_of p)] @ worker_writes (prompt_of p) ws @
                  [Kill, Wait, Unlink ?tmp]" if "worker (prompt_of p) = TimedOut ws" for ws
    by (cases rule: process_platform_cases [of worker p rd fs]) (use run that in auto)
  have key: "map_of (fs_after fs evs) ?key = map_of fs ?key"
    using pt [of ?key] tmp_path_neq [of ?key p] by auto
  show ?thesis
    using pt sp tm key
    by (auto simp: fun_eq_iff path_exists_map_of is_done_def)
qed

lemma effect_frame: "q \<notin> set (touches e) \<Longrightarrow> map_of (effect fs e) q = map_of fs q"
  by (cases e) (auto simp: map_of_effect split: option.splits)

lemma fs_after_frame:
  "q \<notin> set (concat (map touches evs)) \<Longrightarrow> map_of (fs_after fs evs) q = map_of fs q"
proof (induction evs arbitrary: fs)
  case Nil
  then show ?case by (simp add: fs_after_Nil)
next
  case (Cons e evs)
  then show ?case by (simp add: fs_after_Cons effect_frame)
qed



lemma touches_worker_writes:
  "a \<in> set (worker_writes pr ws) \<Longrightarrow> touches a = [p_output_path pr]"
  by (auto simp: worker_writes_def)

lemma removes_worker_writes: "a \<in> set (worker_writes pr ws) \<Longrightarrow> removes a = []"
  by (auto simp: worker_writes_def)

lemma task_step_touches:
  "task_step rd worker p ph fs = (ph', evs) \<Longrightarrow>
   set (concat (map touches evs)) \<subseteq> {tmp_path_of (platform_to_filename p), platform_to_filename p}"
  by (auto simp: task_step_def Let_def output_path_prompt
      split: phase.splits outcome.splits list.splits ending.splits if_splits stderr.splits
        option.splits verdict.splits)

lemma task_step_removes:
  "task_step rd worker p ph fs = (ph', evs) \<Longrightarrow>
   set (concat (map removes evs)) \<subseteq> {tmp_path_of (platform_to_filename p)}"
  by (auto simp: task_step_def Let_def output_path_prompt
      split: phase.splits outcome.splits list.splits ending.splits if_splits stderr.splits
        option.splits verdict.splits)

lemma process_platform_touches:
  "process_platform rd worker p d fs = (res, evs) \<Longrightarrow>
   set (concat (map touches evs)) \<subseteq> {tmp_path_of (platform_to_filename p), platform_to_filename p}"
proof (cases d)
  case True
  assume "process_platform rd worker p d fs = (res, evs)"
  with True show ?thesis by (simp add: process_platform_def Let_def)
next
  case False
  assume run: "process_platform rd worker p d fs = (res, evs)"
  show ?thesis
    by (cases rule: process_platform_cases [of worker p rd fs])
       (use run False in \<open>auto simp: output_path_prompt touches_worker_writes\<close>)
qed

lemma process_platform_removes:
  "process_platform rd worker p d fs = (res, evs) \<Longrightarrow>
   set (concat (map removes evs)) \<subseteq> {tmp_path_of (platform_to_filename p)}"
proof (cases d)
  case True
  assume "process_platform rd worker p d fs = (res, evs)"
  with True show ?thesis by (simp add: process_platform_def Let_def)
next
  case False
  assume run: "process_platform rd worker p d fs = (res, evs)"
  show ?thesis
    by (cases rule: process_platform_cases [of worker p rd fs])
       (use run False in \<open>auto simp: removes_worker_writes\<close>)
qed

lemma is_tmp_name_tmp_path: "is_tmp_name (tmp_path_of (platform_to_filename p))"
  by (simp add: is_tmp_name_def tmp_path_of_def platform_to_filename_def starts_with_def ends_with_def)


lemma combined_not_tmp_name: "\<not> is_tmp_name COMBINED_CSV"
  by (simp add: is_tmp_name_def COMBINED_CSV_def ends_with_def starts_with_def)



text \<open>
  C2 (as amended). A call of \<^verbatim>\<open>process_platform\<close> reports success exactly when the external
  process ends within the timeout, with whatever exit code and stderr, and has left at the
  temporary path a file that the reader reads to its end without an error, with a header
  that has every required column, and with at least one row. On success the final path
  holds a file that passes the validation; otherwise the final path holds what it held
  before. A timeout is a failure whatever file the process has written.
\<close>

theorem execute_success_iff:
  "(succeeded (fst (process_platform rd worker p False fs)) \<longleftrightarrow>
      (\<exists>code err ws fns rows.
         worker (prompt_of p) = Exited code err ws \<and> ws \<noteq> [] \<and>
         rd (last ws) = Reads (Some fns) rows None \<and> set fieldnames \<subseteq> set fns \<and> rows \<noteq> [])) \<and>
   (if succeeded (fst (process_platform rd worker p False fs))
    then \<exists>c n. map_of (fs_after fs (snd (process_platform rd worker p False fs)))
                  (platform_to_filename p) = Some c \<and> validate_csv (rd c) = Valid n
    else map_of (fs_after fs (snd (process_platform rd worker p False fs)))
           (platform_to_filename p) = map_of fs (platform_to_filename p))"
proof -
  obtain res evs where run: "process_platform rd worker p False fs = (res, evs)"
    by (cases "process_platform rd worker p False fs")
  let ?tmp = "tmp_path_of (platform_to_filename p)"
  let ?key = "platform_to_filename p"
  have iff: "succeeded res \<longleftrightarrow>
      (\<exists>code err ws fns rows.
         worker (prompt_of p) = Exited code err ws \<and> ws \<noteq> [] \<and>
         rd (last ws) = Reads (Some fns) rows None \<and> set fieldnames \<subseteq> set fns \<and> rows \<noteq> [])"
  proof (cases rule: process_platform_cases [of worker p rd fs])
    case (invalid code err ws msg)
    then show ?thesis using run by (auto simp: succeeded_def validate_csv_Valid_iff)
  next
    case (valid code err ws n)
    then show ?thesis using run by (auto simp: succeeded_def validate_csv_Valid_iff)
  qed (use run in \<open>auto simp: succeeded_def\<close>)
  have ok: "\<exists>c n. map_of (fs_after fs evs) ?key = Some c \<and> validate_csv (rd c) = Valid n"
    if "succeeded res"
  proof (cases rule: process_platform_cases [of worker p rd fs])
    case (valid code err ws n)
    then show ?thesis using run by (auto simp: after_simps)
  qed (use run that in \<open>auto simp: succeeded_def\<close>)
  have bad: "map_of (fs_after fs evs) ?key = map_of fs ?key" if "\<not> succeeded res"
    using failed_call_effect [OF run that] by blast
  show ?thesis
    using iff ok bad run by simp
qed

theorem execute_success_iff_witness:
  "succeeded (fst (process_platform (\<lambda>c. c)
      (\<lambda>pr. Exited 1 (StderrText ''warning'') [ReadError ''partial'', Reads (Some fieldnames) [[(''platform'', PyStr ''B'')]] None]) ''B'' False [])) \<and>
   map_of (fs_after [] (snd (process_platform (\<lambda>c. c)
      (\<lambda>pr. Exited 1 (StderrText ''warning'') [ReadError ''partial'', Reads (Some fieldnames) [[(''platform'', PyStr ''B'')]] None]) ''B'' False [])))
     ''b.csv'' = Some (Reads (Some fieldnames) [[(''platform'', PyStr ''B'')]] None)"
proof -
  have "set fieldnames \<subseteq> set fieldnames \<and> [[(''platform'', PyStr ''B'')]] \<noteq> ([] :: row list)"
    by simp
  then have "succeeded (fst (process_platform (\<lambda>c. c)
      (\<lambda>pr. Exited 1 (StderrText ''warning'') [ReadError ''partial'', Reads (Some fieldnames) [[(''platform'', PyStr ''B'')]] None]) ''B'' False []))"
    using execute_success_iff [of "\<lambda>c. c"
        "\<lambda>pr. Exited 1 (StderrText ''warning'') [ReadError ''partial'', Reads (Some fieldnames) [[(''platform'', PyStr ''B'')]] None]" "''B''" "[]"]
    by simp
  moreover have "map_of (fs_after [] (snd (process_platform (\<lambda>c. c)
      (\<lambda>pr. Exited 1 (StderrText ''warning'') [ReadError ''partial'', Reads (Some fieldnames) [[(''platform'', PyStr ''B'')]] None]) ''B'' False [])))
     ''b.csv'' = Some (Reads (Some fieldnames) [[(''platform'', PyStr ''B'')]] None)"
    by code_simp
  ultimately show ?thesis by simp
qed

text \<open>
  C2 as stated fails: the process has written a file that passes the validation, the call
  times out, and the call reports a failure.
\<close>

theorem timeout_fails_with_valid_file:
  "validate_csv (Reads (Some fieldnames) [[(''platform'', PyStr ''B'')]] None) = Valid 1 \<and>
   map_of (fs_after [] [Unlink ''.b.csv.tmp'', Popen (prompt_of ''B''),
                        WorkerWrite ''.b.csv.tmp'' (Reads (Some fieldnames) [[(''platform'', PyStr ''B'')]] None)]) ''.b.csv.tmp'' = Some (Reads (Some fieldnames) [[(''platform'', PyStr ''B'')]] None) \<and>
   process_platform (\<lambda>c. c) (\<lambda>pr. TimedOut [Reads (Some fieldnames) [[(''platform'', PyStr ''B'')]] None]) ''B'' False [] =
     (Returned ''B'' False TimeoutMsg,
      [Unlink ''.b.csv.tmp'', Popen (prompt_of ''B''), WorkerWrite ''.b.csv.tmp'' (Reads (Some fieldnames) [[(''platform'', PyStr ''B'')]] None),
       Kill, Wait, Unlink ''.b.csv.tmp''])"
  by code_simp

subsection \<open>The aggregator\<close>

lemma scanned_files_set:
  "set (scanned_files fs) = {n \<in> fst ` set fs. ends_with ''.csv'' n \<and> n \<noteq> COMBINED_CSV}"
  by (auto simp: scanned_files_def glob_csv_def COMBINED_CSV_def)


lemma cell_text_clean_row: "map cell_text (clean_row r) = cells_of r"
  by (auto simp: clean_row_def cell_text_def cells_of_def split: option.splits pyval.splits)

lemma all_rows_eq:
  "concat (map (\<lambda>(n, rows, err). rows) (map (\<lambda>n. (n, read_file rd fs n)) files)) =
   concat (map (\<lambda>n. fst (read_file rd fs n)) files)"
  by (simp add: comp_def case_prod_unfold)

lemma warns_eq:
  "concat (map (\<lambda>(n, rows, err). case err of None \<Rightarrow> [] | Some e \<Rightarrow> [(n, e)])
     (map (\<lambda>n. (n, read_file rd fs n)) files)) =
   concat (map (\<lambda>n. case snd (read_file rd fs n) of None \<Rightarrow> [] | Some e \<Rightarrow> [(n, e)]) files)"
  by (simp add: comp_def case_prod_unfold cong: option.case_cong)

lemma combine_all_csvs_eq:
  "combine_all_csvs rd wr fs =
     \<lparr>row_count = length (concat (map (\<lambda>n. fst (read_file rd fs n)) (scanned_files fs))),
      warnings = concat (map (\<lambda>n. case snd (read_file rd fs n) of None \<Rightarrow> [] | Some e \<Rightarrow> [(n, e)])
                   (scanned_files fs)),
      written_rows = map cells_of (concat (map (\<lambda>n. fst (read_file rd fs n)) (scanned_files fs))),
      combine_events =
        (if concat (map (\<lambda>n. fst (read_file rd fs n)) (scanned_files fs)) = [] then []
         else [WriteCombined (wr fieldnames
                 (map cells_of (concat (map (\<lambda>n. fst (read_file rd fs n)) (scanned_files fs)))))])\<rparr>"
proof -
  define A where "A = concat (map (\<lambda>n. fst (read_file rd fs n)) (scanned_files fs))"
  define W where "W = concat (map (\<lambda>n. case snd (read_file rd fs n) of None \<Rightarrow> [] | Some e \<Rightarrow> [(n, e)])
                   (scanned_files fs))"
  have "combine_all_csvs rd wr fs =
     (case A of
        [] \<Rightarrow> \<lparr>row_count = 0, warnings = W, written_rows = [], combine_events = []\<rparr>
      | r # rs \<Rightarrow>
          \<lparr>row_count = length A, warnings = W,
           written_rows = map (\<lambda>row. map cell_text (clean_row row)) A,
           combine_events =
             [WriteCombined (wr fieldnames (map (\<lambda>row. map cell_text (clean_row row)) A))]\<rparr>)"
    unfolding combine_all_csvs_def Let_def all_rows_eq warns_eq A_def W_def by (rule refl)
  then show ?thesis
    unfolding A_def [symmetric] W_def [symmetric]
    by (cases A) (simp_all add: cell_text_clean_row)
qed




subsection \<open>The loops and \<^verbatim>\<open>main\<close>\<close>

lemma owned_by_mono: "owned_by ps e \<Longrightarrow> set ps \<subseteq> set qs \<Longrightarrow> owned_by qs e"
  unfolding owned_by_def by blast

lemma task_step_owned:
  assumes "task_step rd worker p ph fs = (ph', evs)" and "e \<in> set evs" and "p \<in> set ps"
  shows "owned_by ps e"
proof -
  have "set (touches e) \<subseteq> {tmp_path_of (platform_to_filename p), platform_to_filename p}"
    using task_step_touches [OF assms(1)] assms(2) by auto
  moreover have "set (removes e) \<subseteq> {tmp_path_of (platform_to_filename p)}"
    using task_step_removes [OF assms(1)] assms(2) by auto
  ultimately show ?thesis
    using assms(3) unfolding owned_by_def by blast
qed

lemma process_platform_owned:
  assumes "process_platform rd worker p d fs = (res, evs)" and "e \<in> set evs" and "p \<in> set ps"
  shows "owned_by ps e"
proof -
  have "set (touches e) \<subseteq> {tmp_path_of (platform_to_filename p), platform_to_filename p}"
    using process_platform_touches [OF assms(1)] assms(2) by auto
  moreover have "set (removes e) \<subseteq> {tmp_path_of (platform_to_filename p)}"
    using process_platform_removes [OF assms(1)] assms(2) by auto
  ultimately show ?thesis
    using assms(3) unfolding owned_by_def by blast
qed

lemma owned_by_Sleep: "owned_by ps Sleep"
  by (simp add: owned_by_def)

lemma run_sequential_dispatched:
  "r_dispatched (run_sequential rd worker names fs) =
     take (length (r_dispatched (run_sequential rd worker names fs))) names \<and>
   (\<not> r_cancelled (run_sequential rd worker names fs) \<longrightarrow>
      r_dispatched (run_sequential rd worker names fs) = names)"
proof (induction names arbitrary: fs)
  case Nil
  then show ?case by simp
next
  case (Cons p ps)
  obtain res evs where run: "process_platform rd worker p False fs = (res, evs)"
    by (cases "process_platform rd worker p False fs")
  show ?case
  proof (cases res)
    case KeyboardInterrupt
    then show ?thesis using run by simp
  next
    case (Returned q ok msg)
    then show ?thesis
      using run Cons [of "fs_after fs (evs @ [Sleep])"] by (simp add: Let_def)
  qed
qed

lemma run_sequential_owned:
  "e \<in> set (r_events (run_sequential rd worker names fs)) \<Longrightarrow>
   owned_by (r_dispatched (run_sequential rd worker names fs)) e"
proof (induction names arbitrary: fs)
  case Nil
  then show ?case by simp
next
  case (Cons p ps)
  obtain res evs where run: "process_platform rd worker p False fs = (res, evs)"
    by (cases "process_platform rd worker p False fs")
  show ?case
  proof (cases res)
    case KeyboardInterrupt
    then show ?thesis
      using run Cons.prems process_platform_owned [OF run, of e "[p]"] by simp
  next
    case (Returned q ok msg)
    let ?r = "run_sequential rd worker ps (fs_after fs (evs @ [Sleep]))"
    have ev: "r_events (run_sequential rd worker (p # ps) fs) = evs @ [Sleep] @ r_events ?r"
      and di: "r_dispatched (run_sequential rd worker (p # ps) fs) = p # r_dispatched ?r"
      using run Returned by (simp_all add: Let_def)
    consider "e \<in> set evs" | "e = Sleep" | "e \<in> set (r_events ?r)"
      using Cons.prems unfolding ev by auto
    then show ?thesis
    proof cases
      case 1
      then show ?thesis unfolding di using process_platform_owned [OF run, of e] by simp
    next
      case 2
      then show ?thesis by (simp add: owned_by_Sleep)
    next
      case 3
      then have "owned_by (r_dispatched ?r) e" by (rule Cons.IH)
      then show ?thesis unfolding di by (rule owned_by_mono) auto
    qed
  qed
qed

lemma submit_next_inv: "pool_inv k names fs pool \<Longrightarrow> length (pl_pending pool) < k \<Longrightarrow> pool_inv k names fs (submit_next pool)"
  unfolding pool_inv_def submit_next_def
  by (auto split: list.splits intro: owned_by_mono)

lemma submit_next_length: "length (pl_pending (submit_next pool)) \<le> Suc (length (pl_pending pool))"
  by (simp add: submit_next_def split: list.splits)

lemma pool_init_aux:
  "pool_inv k names fs pool \<Longrightarrow> length (pl_pending pool) + j \<le> k \<Longrightarrow>
   pool_inv k names fs ((submit_next ^^ j) pool) \<and>
   length (pl_pending ((submit_next ^^ j) pool)) \<le> length (pl_pending pool) + j"
proof (induction j)
  case 0
  then show ?case by simp
next
  case (Suc j)
  then have IH: "pool_inv k names fs ((submit_next ^^ j) pool)"
    "length (pl_pending ((submit_next ^^ j) pool)) \<le> length (pl_pending pool) + j"
    by simp_all
  have "length (pl_pending ((submit_next ^^ j) pool)) < k"
    using IH(2) Suc.prems(2) by simp
  then have "pool_inv k names fs (submit_next ((submit_next ^^ j) pool))"
    using IH(1) by (intro submit_next_inv)
  moreover have "length (pl_pending (submit_next ((submit_next ^^ j) pool))) \<le> length (pl_pending pool) + Suc j"
    using submit_next_length [of "(submit_next ^^ j) pool"] IH(2) by simp
  ultimately show ?case by simp
qed

lemma pool_init_inv: "pool_inv k names fs (pool_init k names fs)"
proof -
  let ?p0 = "\<lparr>pl_store = fs, pl_pending = [], pl_rest = names,
        pl_run = \<lparr>r_dispatched = [], r_success = 0, r_fail = 0, r_cancelled = False,
                  r_events = []\<rparr>\<rparr> :: 'a pool"
  have "pool_inv k names fs ?p0"
    by (simp add: pool_inv_def fs_after_Nil)
  then show ?thesis
    unfolding pool_init_def using pool_init_aux [of k names fs ?p0 k] by simp
qed

lemma pool_step_inv:
  assumes "pool_inv k names fs pool"
  shows "pool_inv k names fs (pool_step rd worker pool act)"
proof (cases act)
  case (Run i)
  show ?thesis
  proof (cases "i < length (pl_pending pool)")
    case False
    then show ?thesis using assms Run by (simp add: pool_step_def)
  next
    case True
    let ?t = "pl_pending pool ! i"
    obtain ph evs where st: "task_step rd worker (t_platform ?t) (t_phase ?t) (pl_store pool) = (ph, evs)"
      by (cases "task_step rd worker (t_platform ?t) (t_phase ?t) (pl_store pool)")
    have mem: "t_platform ?t \<in> set (r_dispatched (pl_run pool))"
      using assms True unfolding pool_inv_def by (auto simp: subset_iff)
    have own: "\<forall>e \<in> set evs. owned_by (r_dispatched (pl_run pool)) e"
      using task_step_owned [OF st _ mem] by blast
    have plat: "map t_platform ((pl_pending pool)[i := ?t\<lparr>t_phase := ph\<rparr>]) = map t_platform (pl_pending pool)"
      using True by (simp add: map_update list_update_same_conv)
    show ?thesis
      using assms True Run st own plat
      unfolding pool_inv_def pool_step_def
      by (simp add: Let_def fs_after_append) auto
  qed
next
  case (Collect i)
  show ?thesis
  proof (cases "i < length (pl_pending pool) \<and> \<not> r_cancelled (pl_run pool)")
    case False
    then show ?thesis using assms Collect by (auto simp: pool_step_def)
  next
    case True
    let ?others = "take i (pl_pending pool) @ drop (Suc i) (pl_pending pool)"
    have len: "length ?others < k"
      using assms True unfolding pool_inv_def by auto
    have sub: "set ?others \<subseteq> set (pl_pending pool)"
      using set_take_subset [of i "pl_pending pool"] set_drop_subset [of "Suc i" "pl_pending pool"]
      by auto
    show ?thesis
    proof (cases "t_phase (pl_pending pool ! i)")
      case (PDone res)
      show ?thesis
      proof (cases res)
        case KeyboardInterrupt
        have "pool_inv k names fs (pool\<lparr>pl_pending := ?others,
                 pl_run := (pl_run pool)\<lparr>r_cancelled := True\<rparr>\<rparr>)"
          using assms len sub unfolding pool_inv_def by auto
        then show ?thesis
          using True Collect PDone KeyboardInterrupt by (simp add: pool_step_def Let_def)
      next
        case (Returned q ok msg)
        let ?pool' = "pool\<lparr>pl_pending := ?others,
                 pl_run := (pl_run pool)
                   \<lparr>r_success := r_success (pl_run pool) + (if ok then 1 else 0),
                    r_fail := r_fail (pl_run pool) + (if ok then 0 else 1)\<rparr>\<rparr>"
        have "pool_inv k names fs ?pool'"
          using assms len sub unfolding pool_inv_def by auto
        moreover have "length (pl_pending ?pool') < k" using len by simp
        ultimately have "pool_inv k names fs (submit_next ?pool')"
          by (rule submit_next_inv)
        then show ?thesis
          using True Collect PDone Returned by (simp add: pool_step_def Let_def)
      qed
    qed (use assms True Collect in \<open>simp_all add: pool_step_def\<close>)
  qed
next
  case Interrupt
  then show ?thesis using assms unfolding pool_inv_def pool_step_def by simp
qed

lemma pool_run_snoc:
  "pool_run rd worker k names (sched @ [a]) fs = pool_step rd worker (pool_run rd worker k names sched fs) a"
  by (simp add: pool_run_def)

lemma pool_run_inv: "pool_inv k names fs (pool_run rd worker k names sched fs)"
proof (induction sched rule: rev_induct)
  case Nil
  then show ?case by (simp add: pool_run_def pool_init_inv)
next
  case (snoc a sched)
  then show ?case by (simp add: pool_run_snoc pool_step_inv)
qed

lemma combine_events_housekeeping:
  "e \<in> set (combine_events (combine_all_csvs rd wr fs)) \<Longrightarrow> housekeeping e"
  by (auto simp: combine_all_csvs_eq housekeeping_def split: if_splits)

lemma cleanup_housekeeping: "e \<in> set (cleanup_temp_files fs) \<Longrightarrow> housekeeping e"
  by (auto simp: cleanup_temp_files_def glob_tmp_def housekeeping_def)

lemma finish_run_fields:
  "r_dispatched (finish_run rd wr fs r) = r_dispatched r"
  "r_success (finish_run rd wr fs r) = r_success r"
  "r_fail (finish_run rd wr fs r) = r_fail r"
  "r_cancelled (finish_run rd wr fs r) = r_cancelled r"
  by (simp_all add: finish_run_def Let_def)

lemma finish_run_events:
  "e \<in> set (r_events (finish_run rd wr fs r)) \<Longrightarrow> e \<in> set (r_events r) \<or> housekeeping e"
  by (auto simp: finish_run_def Let_def dest: combine_events_housekeeping cleanup_housekeeping)

lemma no_run_fields:
  "r_dispatched (no_run evs) = []" "r_events (no_run evs) = evs" "r_cancelled (no_run evs) = False"
  "r_fail (no_run evs) = 0" "r_success (no_run evs) = 0"
  by (simp_all add: no_run_def)

lemma pool_run_dispatched:
  "set (r_dispatched (pl_run (pool_run rd worker k names sched fs))) \<subseteq> set names"
proof -
  have "r_dispatched (pl_run (pool_run rd worker k names sched fs)) @
        filter (\<lambda>n. n \<noteq> []) (pl_rest (pool_run rd worker k names sched fs)) =
        filter (\<lambda>n. n \<noteq> []) names"
    using pool_run_inv [of k names fs rd worker sched] unfolding pool_inv_def by blast
  then have "set (r_dispatched (pl_run (pool_run rd worker k names sched fs))) \<subseteq>
        set (filter (\<lambda>n. n \<noteq> []) names)"
    by (metis set_append Un_upper1)
  then show ?thesis by auto
qed

lemma run_sequential_subset: "set (r_dispatched (run_sequential rd worker names fs)) \<subseteq> set names"
  using run_sequential_dispatched [of rd worker names fs] set_take_subset by metis

lemma main_Finished:
  assumes "main a db_rows rd wr worker sched fs = Finished r"
  shows "(if arg_combine_only a then r_dispatched r = []
          else \<exists>names note. select_remaining a db_rows fs = Selected names note \<and>
                 set (r_dispatched r) \<subseteq> set names) \<and>
         (\<forall>e \<in> set (r_events r). owned_by (r_dispatched r) e \<or> housekeeping e)"
proof (cases "arg_combine_only a")
  case True
  then have "r = no_run (combine_events (combine_all_csvs rd wr fs))"
    using assms by (simp add: main_def)
  then show ?thesis
    using True by (auto simp: no_run_fields dest: combine_events_housekeeping)
next
  case False
  show ?thesis
  proof (cases "select_remaining a db_rows fs")
    case NotFound
    then show ?thesis using assms False by (simp add: main_def)
  next
    case (Selected names forced)
    show ?thesis
    proof (cases names)
      case Nil
      then have "r = no_run (combine_events (combine_all_csvs rd wr fs))"
        using assms False Selected by (simp add: main_def)
      then show ?thesis
        using False Selected by (auto simp: no_run_fields dest: combine_events_housekeeping)
    next
      case (Cons n ns)
      consider (is_dry) "arg_dry_run a" | (is_seq) "\<not> arg_dry_run a" "arg_parallel a = 1"
        | (is_par) "\<not> arg_dry_run a" "arg_parallel a \<noteq> 1"
        by blast
      then show ?thesis
      proof cases
        case is_dry
        then have "r = no_run []"
          using assms False Selected Cons by (simp add: main_def)
        then show ?thesis using False Selected by (simp add: no_run_fields)
      next
        case is_seq
        then have r: "r = finish_run rd wr fs (run_sequential rd worker names fs)"
          using assms False Selected Cons by (simp add: main_def)
        show ?thesis
          unfolding r using False Selected run_sequential_subset [of rd worker names fs]
          by (auto simp: finish_run_fields dest!: finish_run_events intro: run_sequential_owned)
      next
        case is_par
        let ?pool = "pool_run rd worker (nat (arg_parallel a)) names sched fs"
        have r: "r = finish_run rd wr fs (pl_run ?pool)"
          using assms False Selected Cons is_par by (simp add: main_def Let_def split: if_splits)
        have own: "\<forall>e \<in> set (r_events (pl_run ?pool)). owned_by (r_dispatched (pl_run ?pool)) e"
          using pool_run_inv [of "nat (arg_parallel a)" names fs rd worker sched]
          unfolding pool_inv_def by blast
        show ?thesis
          unfolding r using False Selected own
            pool_run_dispatched [of rd worker "nat (arg_parallel a)" names sched fs]
          by (auto simp: finish_run_fields dest!: finish_run_events)
      qed
    qed
  qed
qed

lemma select_normal:
  assumes "arg_platform a = None \<or> arg_platform a = Some []"
  shows "select_remaining a db_rows fs =
     Selected (apply_limit (arg_limit a)
       [n \<leftarrow> map fst (eligible_platforms db_rows (arg_min_games a)). \<not> is_done fs n]) False"
  using assms by (auto simp: select_remaining_def Let_def eligible_platforms_def)

lemma apply_limit_subset: "set (apply_limit l xs) \<subseteq> set xs"
  by (auto simp: apply_limit_def dest: in_set_takeD)

lemma housekeeping_touches:
  "housekeeping e \<Longrightarrow> q \<in> set (touches e) \<Longrightarrow> is_tmp_name q \<or> q = COMBINED_CSV"
  by (auto simp: housekeeping_def)

lemma submit_next_dispatched:
  "\<exists>ys. r_dispatched (pl_run (submit_next pool)) = r_dispatched (pl_run pool) @ ys"
  by (simp add: submit_next_def split: list.splits)

lemma pool_step_dispatched:
  "\<exists>ys. r_dispatched (pl_run (pool_step rd worker pool act)) = r_dispatched (pl_run pool) @ ys"
proof (cases act)
  case (Run i)
  then show ?thesis
    by (simp add: pool_step_def Let_def split: prod.splits)
next
  case (Collect i)
  show ?thesis
  proof (cases "i < length (pl_pending pool) \<and> \<not> r_cancelled (pl_run pool)")
    case False
    then show ?thesis using Collect by (auto simp: pool_step_def)
  next
    case True
    show ?thesis
    proof (cases "t_phase (pl_pending pool ! i)")
      case (PDone res)
      show ?thesis
      proof (cases res)
        case KeyboardInterrupt
        then show ?thesis using True Collect PDone by (simp add: pool_step_def Let_def)
      next
        case (Returned q ok msg)
        then show ?thesis
          using True Collect PDone
            submit_next_dispatched [of "pool\<lparr>pl_pending := take i (pl_pending pool) @ drop (Suc i) (pl_pending pool),
                 pl_run := (pl_run pool)
                   \<lparr>r_success := r_success (pl_run pool) + (if ok then 1 else 0),
                    r_fail := r_fail (pl_run pool) + (if ok then 0 else 1)\<rparr>\<rparr>"]
          by (simp add: pool_step_def Let_def)
      qed
    qed (use True Collect in \<open>simp_all add: pool_step_def\<close>)
  qed
next
  case Interrupt
  then show ?thesis by (simp add: pool_step_def)
qed

lemma pool_run_dispatched_prefix:
  "\<exists>ys. r_dispatched (pl_run (pool_run rd worker k names sched fs)) =
         r_dispatched (pl_run (pool_init k names fs)) @ ys"
proof (induction sched rule: rev_induct)
  case Nil
  then show ?case by (simp add: pool_run_def)
next
  case (snoc a sched)
  then obtain ys where ys: "r_dispatched (pl_run (pool_run rd worker k names sched fs)) =
         r_dispatched (pl_run (pool_init k names fs)) @ ys" by blast
  obtain zs where "r_dispatched (pl_run (pool_step rd worker (pool_run rd worker k names sched fs) a)) =
      r_dispatched (pl_run (pool_run rd worker k names sched fs)) @ zs"
    using pool_step_dispatched by blast
  then show ?case unfolding pool_run_snoc ys by simp
qed

lemma submit_next_idle: "pl_rest pool = [] \<Longrightarrow> submit_next pool = pool"
  by (simp add: submit_next_def)

lemma funpow_submit_idle: "pl_rest pool = [] \<Longrightarrow> (submit_next ^^ j) pool = pool"
  by (induction j) (simp_all add: submit_next_idle)

lemma pool_init_single:
  assumes "p \<noteq> []" and "0 < k"
  shows "r_dispatched (pl_run (pool_init k [p] fs)) = [p]"
proof -
  obtain j where k: "k = Suc j" using assms(2) by (cases k) auto
  let ?p0 = "\<lparr>pl_store = fs, pl_pending = [], pl_rest = [p],
        pl_run = \<lparr>r_dispatched = [], r_success = 0, r_fail = 0, r_cancelled = False,
                  r_events = []\<rparr>\<rparr> :: 'a pool"
  have one: "pl_rest (submit_next ?p0) = []" "r_dispatched (pl_run (submit_next ?p0)) = [p]"
    using assms(1) by (simp_all add: submit_next_def)
  have "pool_init k [p] fs = (submit_next ^^ j) (submit_next ?p0)"
    unfolding pool_init_def k by (simp add: funpow_swap1)
  then show ?thesis
    using one by (simp add: funpow_submit_idle)
qed

lemma pool_run_single:
  assumes "p \<noteq> []" and "0 < k"
  shows "r_dispatched (pl_run (pool_run rd worker k [p] sched fs)) = [p]"
proof -
  obtain ys where ys: "r_dispatched (pl_run (pool_run rd worker k [p] sched fs)) = [p] @ ys"
    using pool_run_dispatched_prefix [of rd worker k "[p]" sched fs]
    by (auto simp: pool_init_single [OF assms])
  have "r_dispatched (pl_run (pool_run rd worker k [p] sched fs)) @
        filter (\<lambda>n. n \<noteq> []) (pl_rest (pool_run rd worker k [p] sched fs)) =
        filter (\<lambda>n. n \<noteq> []) [p]"
    using pool_run_inv [of k "[p]" fs rd worker sched] unfolding pool_inv_def by blast
  moreover have "filter (\<lambda>n. n \<noteq> []) [p] = [p]"
    using assms(1) by simp
  ultimately have "([p] @ ys) @ filter (\<lambda>n. n \<noteq> []) (pl_rest (pool_run rd worker k [p] sched fs)) = [p]"
    by (simp only: ys)
  then have "ys = []" by simp
  then show ?thesis using ys by simp
qed

lemma run_sequential_single: "r_dispatched (run_sequential rd worker [p] fs) = [p]"
  by (cases "process_platform rd worker p False fs"; cases "fst (process_platform rd worker p False fs)")
     (simp_all add: Let_def)

lemma main_override_dispatch:
  assumes fin: "main a db_rows rd wr worker sched fs = Finished r"
    and ov: "arg_platform a = Some p" "p \<noteq> []" and nc: "\<not> arg_combine_only a" and nd: "\<not> arg_dry_run a"
  shows "r_dispatched r = [p]"
proof -
  have sel: "select_remaining a db_rows fs = Selected [p] (p \<in> set SKIP_PLATFORMS)"
    using select_override [OF ov, of db_rows fs] fin nc
    by (auto simp: main_def apply_limit_single split: if_splits)
  show ?thesis
  proof (cases "arg_parallel a = 1")
    case True
    then have "r = finish_run rd wr fs (run_sequential rd worker [p] fs)"
      using fin sel nc nd by (simp add: main_def del: run_sequential.simps)
    then show ?thesis by (simp add: finish_run_fields run_sequential_single del: run_sequential.simps)
  next
    case False
    then have pos: "0 < nat (arg_parallel a)"
      and r: "r = finish_run rd wr fs (pl_run (pool_run rd worker (nat (arg_parallel a)) [p] sched fs))"
      using fin sel nc nd by (auto simp: main_def Let_def split: if_splits)
    show ?thesis
      unfolding r by (simp add: finish_run_fields pool_run_single [OF ov(2) pos])
  qed
qed

text \<open>
  C8 (as amended). Without \<^verbatim>\<open>--platform\<close>, a run of \<open>main\<close> dispatches no platform whose
  file exists when the run starts, and every file that exists when the run starts, other
  than the combined file and the temporary files, holds at the end what it held at the
  start. With \<^verbatim>\<open>--platform p\<close> a run that is not a dry run dispatches exactly \<open>p\<close>, whether
  or not the file of \<open>p\<close> exists.
\<close>

theorem normal_mode_skips_done:
  assumes fin: "main a db_rows rd wr worker sched fs = Finished r"
  shows "(arg_platform a = None \<or> arg_platform a = Some [] \<longrightarrow>
            (\<forall>p \<in> set (r_dispatched r). \<not> is_done fs p) \<and>
            (\<forall>q. map_of fs q \<noteq> None \<and> q \<noteq> COMBINED_CSV \<and> \<not> is_tmp_name q \<longrightarrow>
                 map_of (fs_after fs (r_events r)) q = map_of fs q)) \<and>
         (\<forall>p. arg_platform a = Some p \<and> p \<noteq> [] \<and> \<not> arg_combine_only a \<and> \<not> arg_dry_run a \<longrightarrow>
              r_dispatched r = [p])"
proof (intro impI conjI ballI allI)
  fix p
  assume "arg_platform a = Some p \<and> p \<noteq> [] \<and> \<not> arg_combine_only a \<and> \<not> arg_dry_run a"
  then show "r_dispatched r = [p]"
    using main_override_dispatch [OF fin] by blast
next
  fix p
  assume normal: "arg_platform a = None \<or> arg_platform a = Some []" and p: "p \<in> set (r_dispatched r)"
  show "\<not> is_done fs p"
  proof (cases "arg_combine_only a")
    case True
    then show ?thesis using main_Finished [OF fin] p by simp
  next
    case False
    then obtain names forced where "select_remaining a db_rows fs = Selected names forced"
      "set (r_dispatched r) \<subseteq> set names"
      using main_Finished [OF fin] by auto
    then have "p \<in> set (apply_limit (arg_limit a)
       [n \<leftarrow> map fst (eligible_platforms db_rows (arg_min_games a)). \<not> is_done fs n])"
      using select_normal [OF normal, of db_rows fs] p by auto
    then show ?thesis using apply_limit_subset by fastforce
  qed
next
  fix q
  assume normal: "arg_platform a = None \<or> arg_platform a = Some []"
    and q: "map_of fs q \<noteq> None \<and> q \<noteq> COMBINED_CSV \<and> \<not> is_tmp_name q"
  have disp: "\<not> is_done fs p" if "p \<in> set (r_dispatched r)" for p
  proof (cases "arg_combine_only a")
    case True
    then show ?thesis using main_Finished [OF fin] that by simp
  next
    case False
    then obtain names forced where "select_remaining a db_rows fs = Selected names forced"
      "set (r_dispatched r) \<subseteq> set names"
      using main_Finished [OF fin] by auto
    then have "p \<in> set (apply_limit (arg_limit a)
       [n \<leftarrow> map fst (eligible_platforms db_rows (arg_min_games a)). \<not> is_done fs n])"
      using select_normal [OF normal, of db_rows fs] that by auto
    then show ?thesis using apply_limit_subset by fastforce
  qed
  have "q \<notin> set (touches e)" if e: "e \<in> set (r_events r)" for e
  proof
    assume qe: "q \<in> set (touches e)"
    consider "owned_by (r_dispatched r) e" | "housekeeping e"
      using main_Finished [OF fin] e by blast
    then show False
    proof cases
      case 1
      then obtain p where p: "p \<in> set (r_dispatched r)"
        "q = tmp_path_of (platform_to_filename p) \<or> q = platform_to_filename p"
        using qe unfolding owned_by_def by blast
      then show False
        using q disp [OF p(1)] is_tmp_name_tmp_path [of p]
        by (auto simp: is_done_def path_exists_map_of)
    next
      case 2
      then show False using housekeeping_touches [OF 2 qe] q by auto
    qed
  qed
  then have "q \<notin> set (concat (map touches (r_events r)))" by auto
  then show "map_of (fs_after fs (r_events r)) q = map_of fs q"
    by (rule fs_after_frame)
qed

theorem normal_mode_skips_done_witness:
  "\<not> is_done [(''b.csv'', Reads (Some fieldnames) [[(''platform'', PyStr ''B'')]] None)] ''A'' \<and>
   map_of (fs_after [(''b.csv'', Reads (Some fieldnames) [[(''platform'', PyStr ''B'')]] None)]
      [Unlink ''.a.csv.tmp'', Popen (prompt_of ''A''), Unlink ''.a.csv.tmp'', Sleep,
       WriteCombined (ReadError ''combined'')]) ''b.csv'' = Some (Reads (Some fieldnames) [[(''platform'', PyStr ''B'')]] None)"
proof -
  have fin: "main \<lparr>arg_parallel = 1, arg_dry_run = False, arg_platform = None,
         arg_combine_only = False, arg_min_games = 10, arg_limit = 0\<rparr>
       [(''A'', 50), (''B'', 40)] (\<lambda>c. c) (\<lambda>h rs. ReadError ''combined'')
       (\<lambda>pr. SpawnError ''no claude'') [] [(''b.csv'', Reads (Some fieldnames) [[(''platform'', PyStr ''B'')]] None)] =
     Finished \<lparr>r_dispatched = [''A''], r_success = 0, r_fail = 1, r_cancelled = False,
       r_events = [Unlink ''.a.csv.tmp'', Popen (prompt_of ''A''), Unlink ''.a.csv.tmp'', Sleep,
                   WriteCombined (ReadError ''combined'')]\<rparr>"
    by code_simp
  have q: "map_of [(''b.csv'', Reads (Some fieldnames) [[(''platform'', PyStr ''B'')]] None)] ''b.csv'' \<noteq> None \<and> ''b.csv'' \<noteq> COMBINED_CSV \<and>
           \<not> is_tmp_name ''b.csv''"
    by (simp add: COMBINED_CSV_def is_tmp_name_def starts_with_def)
  show ?thesis
    using normal_mode_skips_done [OF fin] q by simp
qed

text \<open>
  C8 as stated fails: with \<^verbatim>\<open>--platform B\<close> the platform is dispatched although its file
  exists, and the file is replaced.
\<close>

theorem override_reprocesses_done_platform:
  "is_done [(''b.csv'', Reads (Some fieldnames) [[(''platform'', PyStr ''B'')]] None)] ''B'' \<and>
   main \<lparr>arg_parallel = 1, arg_dry_run = False, arg_platform = Some ''B'',
         arg_combine_only = False, arg_min_games = 10, arg_limit = 0\<rparr>
       [(''A'', 50), (''B'', 40)] (\<lambda>c. c) (\<lambda>h rs. ReadError ''combined'')
       (\<lambda>pr. Exited 0 StderrEmpty [Reads (Some fieldnames) [[(''platform'', PyStr ''B''), (''notes'', PyStr ''new'')]] None]) [] [(''b.csv'', Reads (Some fieldnames) [[(''platform'', PyStr ''B'')]] None)] =
     Finished \<lparr>r_dispatched = [''B''], r_success = 1, r_fail = 0, r_cancelled = False,
       r_events = [Unlink ''.b.csv.tmp'', Popen (prompt_of ''B''),
                   WorkerWrite ''.b.csv.tmp'' (Reads (Some fieldnames) [[(''platform'', PyStr ''B''), (''notes'', PyStr ''new'')]] None), Rename ''.b.csv.tmp'' ''b.csv'', Sleep,
                   WriteCombined (ReadError ''combined'')]\<rparr> \<and>
   map_of (fs_after [(''b.csv'', Reads (Some fieldnames) [[(''platform'', PyStr ''B'')]] None)]
      [Unlink ''.b.csv.tmp'', Popen (prompt_of ''B''),
       WorkerWrite ''.b.csv.tmp'' (Reads (Some fieldnames) [[(''platform'', PyStr ''B''), (''notes'', PyStr ''new'')]] None), Rename ''.b.csv.tmp'' ''b.csv'', Sleep,
       WriteCombined (ReadError ''combined'')]) ''b.csv'' = Some (Reads (Some fieldnames) [[(''platform'', PyStr ''B''), (''notes'', PyStr ''new'')]] None)"
  by code_simp

subsection \<open>Resumption\<close>












lemma removes_subset_touches: "set (removes e) \<subseteq> set (touches e)"
  by (cases e) auto








subsection \<open>The pool\<close>

lemma submit_next_busy: "[] \<notin> set (pl_rest pool) \<Longrightarrow> pool_busy (submit_next pool)"
  by (auto simp: pool_busy_def submit_next_def split: list.splits)

lemma submit_next_rest: "[] \<notin> set (pl_rest pool) \<Longrightarrow> [] \<notin> set (pl_rest (submit_next pool))"
  by (auto simp: submit_next_def split: list.splits)

lemma funpow_submit_busy:
  "pool_busy pool \<Longrightarrow> pool_busy ((submit_next ^^ j) pool)"
proof (induction j)
  case 0
  then show ?case by simp
next
  case (Suc j)
  then have "[] \<notin> set (pl_rest ((submit_next ^^ j) pool))"
    by (simp add: pool_busy_def)
  then show ?case by (simp add: submit_next_busy)
qed

lemma pool_init_busy:
  assumes "[] \<notin> set names" and "0 < k"
  shows "pool_busy (pool_init k names fs)"
proof -
  obtain j where k: "k = Suc j" using assms(2) by (cases k) auto
  let ?p0 = "\<lparr>pl_store = fs, pl_pending = [], pl_rest = names,
        pl_run = \<lparr>r_dispatched = [], r_success = 0, r_fail = 0, r_cancelled = False,
                  r_events = []\<rparr>\<rparr> :: 'a pool"
  have "pool_busy (submit_next ?p0)"
    using assms(1) by (intro submit_next_busy) simp
  then have "pool_busy ((submit_next ^^ j) (submit_next ?p0))"
    by (rule funpow_submit_busy)
  then show ?thesis
    unfolding pool_init_def k by (simp add: funpow_swap1)
qed

lemma pool_step_busy:
  assumes "pool_busy pool"
  shows "pool_busy (pool_step rd worker pool act)"
proof (cases act)
  case (Run i)
  then show ?thesis
    using assms by (auto simp: pool_step_def pool_busy_def Let_def split: prod.splits)
next
  case (Collect i)
  show ?thesis
  proof (cases "i < length (pl_pending pool) \<and> \<not> r_cancelled (pl_run pool)")
    case False
    then show ?thesis using assms Collect by (auto simp: pool_step_def)
  next
    case True
    show ?thesis
    proof (cases "t_phase (pl_pending pool ! i)")
      case (PDone res)
      show ?thesis
      proof (cases res)
        case KeyboardInterrupt
        then show ?thesis
          using assms True Collect PDone by (simp add: pool_step_def Let_def pool_busy_def)
      next
        case (Returned q ok msg)
        have "pool_busy (submit_next (pool\<lparr>pl_pending := take i (pl_pending pool) @ drop (Suc i) (pl_pending pool),
                 pl_run := (pl_run pool)
                   \<lparr>r_success := r_success (pl_run pool) + (if ok then 1 else 0),
                    r_fail := r_fail (pl_run pool) + (if ok then 0 else 1)\<rparr>\<rparr>))"
          using assms by (intro submit_next_busy) (simp add: pool_busy_def)
        then show ?thesis
          using True Collect PDone Returned by (simp add: pool_step_def Let_def)
      qed
    qed (use assms True Collect in \<open>simp_all add: pool_step_def\<close>)
  qed
next
  case Interrupt
  then show ?thesis using assms by (simp add: pool_step_def pool_busy_def)
qed

lemma pool_run_busy:
  assumes "[] \<notin> set names" and "0 < k"
  shows "pool_busy (pool_run rd worker k names sched fs)"
proof (induction sched rule: rev_induct)
  case Nil
  then show ?case by (simp add: pool_run_def pool_init_busy [OF assms])
next
  case (snoc a sched)
  then show ?case by (simp add: pool_run_snoc pool_step_busy)
qed

lemma collect_refills:
  assumes "i < length (pl_pending pool)" and "\<not> r_cancelled (pl_run pool)"
    and "t_phase (pl_pending pool ! i) = PDone (Returned q ok msg)"
    and "pl_rest pool = p # ps" and "p \<noteq> []"
  shows "pl_pending (pool_step rd worker pool (Collect i)) =
           take i (pl_pending pool) @ drop (Suc i) (pl_pending pool) @
           [\<lparr>t_platform = p, t_phase = PStart\<rparr>] \<and>
         pl_rest (pool_step rd worker pool (Collect i)) = ps \<and>
         r_dispatched (pl_run (pool_step rd worker pool (Collect i))) =
           r_dispatched (pl_run pool) @ [p]"
  using assms by (simp add: pool_step_def Let_def submit_next_def)

text \<open>
  C10. With \<open>k\<close> workers and platform names that are not empty, whatever the order in which
  the threads take their steps: at most \<open>k\<close> calls are pending; the platforms submitted so
  far, followed by those the iterator still holds, are the list \<^verbatim>\<open>remaining_names\<close>, so
  platforms are submitted in that order; the pending calls are calls that were submitted;
  the loop does not end before every platform is submitted, unless it is cancelled; and
  the step that pops a call that has returned submits the next platform of the iterator,
  the other pending calls staying as they are. The sequential loop takes the platforms in
  the same order, one call at a time, and sleeps after every call that returns before the
  next one starts.
\<close>

theorem pool_saturation:
  assumes "[] \<notin> set names" and "0 < k"
  shows "length (pl_pending (pool_run rd worker k names sched fs)) \<le> k \<and>
         r_dispatched (pl_run (pool_run rd worker k names sched fs)) @
           pl_rest (pool_run rd worker k names sched fs) = names \<and>
         set (map t_platform (pl_pending (pool_run rd worker k names sched fs))) \<subseteq>
           set (r_dispatched (pl_run (pool_run rd worker k names sched fs))) \<and>
         (\<not> r_cancelled (pl_run (pool_run rd worker k names sched fs)) \<and>
          pl_pending (pool_run rd worker k names sched fs) = [] \<longrightarrow>
            r_dispatched (pl_run (pool_run rd worker k names sched fs)) = names) \<and>
         (\<forall>i q ok msg p ps.
            i < length (pl_pending (pool_run rd worker k names sched fs)) \<and>
            \<not> r_cancelled (pl_run (pool_run rd worker k names sched fs)) \<and>
            t_phase (pl_pending (pool_run rd worker k names sched fs) ! i) =
              PDone (Returned q ok msg) \<and>
            pl_rest (pool_run rd worker k names sched fs) = p # ps \<longrightarrow>
              pl_pending (pool_run rd worker k names (sched @ [Collect i]) fs) =
                take i (pl_pending (pool_run rd worker k names sched fs)) @
                drop (Suc i) (pl_pending (pool_run rd worker k names sched fs)) @
                [\<lparr>t_platform = p, t_phase = PStart\<rparr>] \<and>
              r_dispatched (pl_run (pool_run rd worker k names (sched @ [Collect i]) fs)) =
                r_dispatched (pl_run (pool_run rd worker k names sched fs)) @ [p]) \<and>
         r_dispatched (run_sequential rd worker names fs) =
           take (length (r_dispatched (run_sequential rd worker names fs))) names \<and>
         (\<forall>p ps q ok msg evs.
            process_platform rd worker p False fs = (Returned q ok msg, evs) \<longrightarrow>
              r_events (run_sequential rd worker (p # ps) fs) =
                evs @ [Sleep] @
                r_events (run_sequential rd worker ps (fs_after fs (evs @ [Sleep]))))"
proof -
  define pool where "pool = pool_run rd worker k names sched fs"
  have inv: "pool_inv k names fs pool"
    unfolding pool_def by (rule pool_run_inv)
  have busy: "pool_busy pool"
    unfolding pool_def by (rule pool_run_busy [OF assms])
  have ne: "filter (\<lambda>n. n \<noteq> []) names = names"
    using assms(1) by (simp add: filter_id_conv) metis
  have ne': "filter (\<lambda>n. n \<noteq> []) (pl_rest pool) = pl_rest pool"
    using busy by (simp add: pool_busy_def filter_id_conv) metis
  have order: "r_dispatched (pl_run pool) @ pl_rest pool = names"
    using inv unfolding pool_inv_def ne ne' by blast
  have step: "pool_run rd worker k names (sched @ [Collect i]) fs = pool_step rd worker pool (Collect i)" for i
    unfolding pool_def by (rule pool_run_snoc)
  have refill: "pl_pending (pool_step rd worker pool (Collect i)) =
           take i (pl_pending pool) @ drop (Suc i) (pl_pending pool) @
           [\<lparr>t_platform = p, t_phase = PStart\<rparr>] \<and>
         r_dispatched (pl_run (pool_step rd worker pool (Collect i))) =
           r_dispatched (pl_run pool) @ [p]"
    if "i < length (pl_pending pool) \<and> \<not> r_cancelled (pl_run pool) \<and>
        t_phase (pl_pending pool ! i) = PDone (Returned q ok msg) \<and> pl_rest pool = p # ps"
    for i q ok msg p ps
  proof -
    have "p \<noteq> []" using busy that by (auto simp: pool_busy_def)
    then show ?thesis using collect_refills [of i pool q ok msg p ps rd worker] that by blast
  qed
  have seq: "r_events (run_sequential rd worker (p # ps) fs) =
        evs @ [Sleep] @ r_events (run_sequential rd worker ps (fs_after fs (evs @ [Sleep])))"
    if "process_platform rd worker p False fs = (Returned q ok msg, evs)"
    for p ps q ok msg evs
    using that by (simp add: Let_def)
  have "length (pl_pending pool) \<le> k"
    and "set (map t_platform (pl_pending pool)) \<subseteq> set (r_dispatched (pl_run pool))"
    using inv unfolding pool_inv_def by blast+
  moreover have "r_dispatched (pl_run pool) = names"
    if "\<not> r_cancelled (pl_run pool) \<and> pl_pending pool = []"
    using that busy order by (auto simp: pool_busy_def)
  moreover have "r_dispatched (run_sequential rd worker names fs) =
      take (length (r_dispatched (run_sequential rd worker names fs))) names"
    using run_sequential_dispatched [of rd worker names fs] by blast
  ultimately show ?thesis
    unfolding step pool_def [symmetric] using order refill seq by blast
qed

theorem pool_saturation_witness:
  "[] \<notin> set [''A'', ''B'', ''C''] \<and> (0::nat) < 2 \<and>
   map t_platform (pl_pending (pool_run (\<lambda>c. c) (\<lambda>pr. SpawnError [])
      2 [''A'', ''B'', ''C''] [Run 0, Run 0, Run 0] ([] :: read_run store))) = [''A'', ''B''] \<and>
   t_phase (pl_pending (pool_run (\<lambda>c. c) (\<lambda>pr. SpawnError [])
      2 [''A'', ''B'', ''C''] [Run 0, Run 0, Run 0] ([] :: read_run store)) ! 0) =
      PDone (Returned ''A'' False (ErrorMsg [])) \<and>
   pl_rest (pool_run (\<lambda>c. c) (\<lambda>pr. SpawnError [])
      2 [''A'', ''B'', ''C''] [Run 0, Run 0, Run 0] ([] :: read_run store)) = [''C''] \<and>
   map t_platform (pl_pending (pool_run (\<lambda>c. c) (\<lambda>pr. SpawnError [])
      2 [''A'', ''B'', ''C''] ([Run 0, Run 0, Run 0] @ [Collect 0]) ([] :: read_run store))) =
      [''B'', ''C''] \<and>
   r_dispatched (pl_run (pool_run (\<lambda>c. c) (\<lambda>pr. SpawnError [])
      2 [''A'', ''B'', ''C''] ([Run 0, Run 0, Run 0] @ [Collect 0]) ([] :: read_run store))) =
      [''A'', ''B'', ''C'']"
proof -
  define names where "names = [''A'', ''B'', ''C'']"
  define sched where "sched = [Run 0, Run 0, Run 0]"
  define W :: "prompt \<Rightarrow> read_run outcome" where "W = (\<lambda>pr. SpawnError [])"
  define pool where "pool = pool_run (\<lambda>c. c) W 2 names sched ([] :: read_run store)"
  have ne: "[] \<notin> set names" unfolding names_def by simp
  have pos: "(0::nat) < 2" by simp
  have pend: "map t_platform (pl_pending pool) = [''A'', ''B'']"
    unfolding pool_def names_def sched_def W_def by code_simp
  have ph: "t_phase (pl_pending pool ! 0) = PDone (Returned ''A'' False (ErrorMsg []))"
    unfolding pool_def names_def sched_def W_def by code_simp
  have rest: "pl_rest pool = [''C'']"
    unfolding pool_def names_def sched_def W_def by code_simp
  have nc: "\<not> r_cancelled (pl_run pool)"
    unfolding pool_def names_def sched_def W_def by code_simp
  have disp: "r_dispatched (pl_run pool) = [''A'', ''B'']"
    unfolding pool_def names_def sched_def W_def by code_simp
  have len: "0 < length (pl_pending pool)"
    using pend by (cases "pl_pending pool") simp_all
  note th = pool_saturation [OF ne pos, of "\<lambda>c. c" W sched "[]"]
  have refill: "pl_pending (pool_run (\<lambda>c. c) W 2 names (sched @ [Collect 0]) []) =
        take 0 (pl_pending pool) @ drop (Suc 0) (pl_pending pool) @
        [\<lparr>t_platform = ''C'', t_phase = PStart\<rparr>] \<and>
      r_dispatched (pl_run (pool_run (\<lambda>c. c) W 2 names (sched @ [Collect 0]) [])) =
        r_dispatched (pl_run pool) @ [''C'']"
    using th len nc ph rest unfolding pool_def [symmetric] by blast
  have "map t_platform (drop (Suc 0) (pl_pending pool)) = [''B'']"
    using pend by (simp add: drop_map [symmetric] del: drop_map)
  then have after: "map t_platform (pl_pending (pool_run (\<lambda>c. c) W 2 names (sched @ [Collect 0]) [])) =
      [''B'', ''C'']"
    using refill by simp
  have disp': "r_dispatched (pl_run (pool_run (\<lambda>c. c) W 2 names (sched @ [Collect 0]) [])) =
      [''A'', ''B'', ''C'']"
    using refill disp by simp
  show ?thesis
    using ne pos pend ph rest after disp'
    unfolding pool_def names_def sched_def W_def by blast
qed

text \<open>
  C10 as stated fails in two ways. With one worker the loop sleeps between the return of a
  call and the start of the next one. With two workers and an empty platform name in the
  list, the step that pops the first call takes the empty name from the iterator and
  submits nothing: one call is pending while a platform is still waiting, and the empty
  name is never submitted, although the sequential loop processes it.
\<close>

theorem delay_and_idle_slot:
  "r_events (run_sequential (\<lambda>c. c) (\<lambda>pr. SpawnError []) [''A'', ''B''] ([] :: read_run store)) =
     [Unlink ''.a.csv.tmp'', Popen (prompt_of ''A''), Unlink ''.a.csv.tmp'', Sleep,
      Unlink ''.b.csv.tmp'', Popen (prompt_of ''B''), Unlink ''.b.csv.tmp'', Sleep] \<and>
   map t_platform (pl_pending (pool_run (\<lambda>c. c) (\<lambda>pr. SpawnError [])
      2 [''A'', ''B'', [], ''C''] [Run 0, Run 0, Run 0, Collect 0] ([] :: read_run store))) = [''B''] \<and>
   pl_rest (pool_run (\<lambda>c. c) (\<lambda>pr. SpawnError [])
      2 [''A'', ''B'', [], ''C''] [Run 0, Run 0, Run 0, Collect 0] ([] :: read_run store)) = [''C''] \<and>
   \<not> r_cancelled (pl_run (pool_run (\<lambda>c. c) (\<lambda>pr. SpawnError [])
      2 [''A'', ''B'', [], ''C''] [Run 0, Run 0, Run 0, Collect 0] ([] :: read_run store)))"
  by code_simp

subsection \<open>Temporary file, validation, rename\<close>

lemma valid_file_iff: "valid_file rd c \<longleftrightarrow> (\<exists>n. validate_csv (rd c) = Valid n)"
  by (simp add: valid_file_def split: verdict.splits)

lemma no_partial_refl: "no_partial rd fs fs"
  by (simp add: no_partial_def)

lemma no_partial_trans:
  assumes "no_partial rd a b" and "no_partial rd b c"
  shows "no_partial rd a c"
  unfolding no_partial_def
proof (intro allI impI)
  fix q assume q: "\<not> is_tmp_name q"
  from assms(2) q have "map_of c q = map_of b q \<or> (\<exists>x. map_of c q = Some x \<and> valid_file rd x)"
    by (simp add: no_partial_def)
  moreover from assms(1) q have "map_of b q = map_of a q \<or> (\<exists>x. map_of b q = Some x \<and> valid_file rd x)"
    by (simp add: no_partial_def)
  ultimately show "map_of c q = map_of a q \<or> (\<exists>x. map_of c q = Some x \<and> valid_file rd x)"
    by auto
qed

lemma no_partial_cong:
  "(\<And>q. map_of b q = map_of b' q) \<Longrightarrow> no_partial rd a b \<Longrightarrow> no_partial rd a b'"
  by (simp add: no_partial_def)

lemma frame_no_partial:
  assumes "\<forall>e \<in> set evs. \<forall>q \<in> set (touches e). is_tmp_name q"
  shows "no_partial rd fs (fs_after fs evs)"
  unfolding no_partial_def
proof (intro allI impI)
  fix q assume "\<not> is_tmp_name q"
  then have "q \<notin> set (concat (map touches evs))" using assms by auto
  then show "map_of (fs_after fs evs) q = map_of fs q \<or>
      (\<exists>c. map_of (fs_after fs evs) q = Some c \<and> valid_file rd c)"
    by (simp add: fs_after_frame)
qed

lemma commit_no_partial:
  assumes body: "\<forall>e \<in> set body. \<forall>q \<in> set (touches e). is_tmp_name q"
    and c: "map_of (fs_after fs body) tmp = Some c" and v: "valid_file rd c"
    and tmp: "is_tmp_name tmp"
  shows "no_partial rd fs (fs_after fs (body @ [Rename tmp key]))"
  unfolding no_partial_def
proof (intro allI impI)
  fix q assume q: "\<not> is_tmp_name q"
  then have "q \<notin> set (concat (map touches body))" using body by auto
  then have same: "map_of (fs_after fs body) q = map_of fs q" by (simp add: fs_after_frame)
  have ne: "q \<noteq> tmp" using q tmp by auto
  have "map_of (fs_after fs (body @ [Rename tmp key])) q =
        (if q = key then Some c else map_of fs q)"
    using c same ne by (simp add: fs_after_append fs_after_Cons fs_after_Nil map_of_effect)
  then show "map_of (fs_after fs (body @ [Rename tmp key])) q = map_of fs q \<or>
      (\<exists>c. map_of (fs_after fs (body @ [Rename tmp key])) q = Some c \<and> valid_file rd c)"
    using v by auto
qed

lemma process_platform_shape:
  fixes rd :: "'c \<Rightarrow> read_run"
  assumes run: "process_platform rd worker p d fs = (res, evs)"
  shows "(\<forall>e \<in> set evs. set (touches e) \<subseteq> {tmp_path_of (platform_to_filename p)} \<and>
            (\<forall>a b. e \<noteq> Rename a b)) \<or>
         (\<exists>body c. evs = body @ [Rename (tmp_path_of (platform_to_filename p)) (platform_to_filename p)] \<and>
            (\<forall>e \<in> set body. set (touches e) \<subseteq> {tmp_path_of (platform_to_filename p)} \<and>
               (\<forall>a b. e \<noteq> Rename a b)) \<and>
            map_of (fs_after fs body) (tmp_path_of (platform_to_filename p)) = Some c \<and>
            valid_file rd c)"
proof (cases d)
  case True
  then have "evs = []" using run by (simp add: process_platform_def Let_def)
  then show ?thesis by simp
next
  case False
  let ?tmp = "tmp_path_of (platform_to_filename p)"
  have ww: "\<forall>e \<in> set (worker_writes (prompt_of p) ws). set (touches e) \<subseteq> {?tmp} \<and> (\<forall>a b. e \<noteq> Rename a b)" for ws :: "'c list"
    by (auto simp: worker_writes_def output_path_prompt)
  show ?thesis
  proof (cases rule: process_platform_cases [of worker p rd fs])
    case (spawn e)
    then have "evs = [Unlink ?tmp, Popen (prompt_of p), Unlink ?tmp]" using run False by simp
    then show ?thesis by simp
  next
    case (timeout ws)
    then have "evs = [Unlink ?tmp, Popen (prompt_of p)] @ worker_writes (prompt_of p) ws @ [Kill, Wait, Unlink ?tmp]"
      using run False by simp
    then show ?thesis using ww [of ws] by auto
  next
    case (interrupt ws)
    then have "evs = [Unlink ?tmp, Popen (prompt_of p)] @ worker_writes (prompt_of p) ws @ [Kill, Wait, Unlink ?tmp]"
      using run False by simp
    then show ?thesis using ww [of ws] by auto
  next
    case (nofile code err msg tail)
    then have "evs = [Unlink ?tmp, Popen (prompt_of p)] @ tail" using run False by simp
    then show ?thesis using nofile(2) by auto
  next
    case (invalid code err ws msg)
    then have "evs = [Unlink ?tmp, Popen (prompt_of p)] @ worker_writes (prompt_of p) ws @ [Unlink ?tmp]"
      using run False by simp
    then show ?thesis using ww [of ws] by auto
  next
    case (valid code err ws n)
    let ?body = "[Unlink ?tmp, Popen (prompt_of p)] @ worker_writes (prompt_of p) ws"
    have evs: "evs = ?body @ [Rename ?tmp (platform_to_filename p)]"
      using valid run False by simp
    have c: "map_of (fs_after fs ?body) ?tmp = Some (last ws)"
      using valid(2) map_of_after_run [of fs "prompt_of p" "prompt_of p" ws ?tmp]
      by (simp add: output_path_prompt)
    have v: "valid_file rd (last ws)" using valid(3) by (simp add: valid_file_iff)
    have b: "\<forall>e \<in> set ?body. set (touches e) \<subseteq> {?tmp} \<and> (\<forall>a b. e \<noteq> Rename a b)"
      using ww [of ws] by auto
    show ?thesis using evs c v b by blast
  qed
qed

lemma process_platform_prefix:
  assumes run: "process_platform rd worker p d fs = (res, evs)" and split: "evs = pre @ post"
  shows "no_partial rd fs (fs_after fs pre)"
proof -
  let ?tmp = "tmp_path_of (platform_to_filename p)"
  let ?key = "platform_to_filename p"
  have tmp: "is_tmp_name ?tmp" by (rule is_tmp_name_tmp_path)
  from process_platform_shape [OF run]
  consider (quiet) "\<forall>e \<in> set evs. set (touches e) \<subseteq> {?tmp} \<and> (\<forall>a b. e \<noteq> Rename a b)"
    | (commit) body c where "evs = body @ [Rename ?tmp ?key]"
        "\<forall>e \<in> set body. set (touches e) \<subseteq> {?tmp} \<and> (\<forall>a b. e \<noteq> Rename a b)"
        "map_of (fs_after fs body) ?tmp = Some c" "valid_file rd c"
    by blast
  then show ?thesis
  proof cases
    case quiet
    then have "\<forall>e \<in> set pre. \<forall>q \<in> set (touches e). is_tmp_name q"
      using split tmp by auto
    then show ?thesis by (rule frame_no_partial)
  next
    case commit
    have b: "\<forall>e \<in> set body. \<forall>q \<in> set (touches e). is_tmp_name q"
      using commit(2) tmp by auto
    show ?thesis
    proof (cases post rule: rev_cases)
      case Nil
      then have "pre = body @ [Rename ?tmp ?key]" using split commit(1) by simp
      then show ?thesis
        using commit_no_partial [OF b commit(3) commit(4) tmp] by simp
    next
      case (snoc post' x)
      then have "pre @ post' = body" using split commit(1) by simp
      then have "\<forall>e \<in> set pre. \<forall>q \<in> set (touches e). is_tmp_name q"
        using b by auto
      then show ?thesis by (rule frame_no_partial)
    qed
  qed
qed

lemma run_sequential_prefix:
  "r_events (run_sequential rd worker names fs) = pre @ post \<Longrightarrow>
   no_partial rd fs (fs_after fs pre)"
proof (induction names arbitrary: fs pre post)
  case Nil
  then show ?case by (simp add: fs_after_Nil no_partial_refl)
next
  case (Cons p ps)
  obtain res evs where run: "process_platform rd worker p False fs = (res, evs)"
    by (cases "process_platform rd worker p False fs")
  show ?case
  proof (cases res)
    case KeyboardInterrupt
    then have "evs = pre @ post" using Cons.prems run by simp
    then show ?thesis by (rule process_platform_prefix [OF run])
  next
    case (Returned q ok msg)
    let ?fs1 = "fs_after fs (evs @ [Sleep])"
    let ?rest = "r_events (run_sequential rd worker ps ?fs1)"
    have ev: "evs @ Sleep # ?rest = pre @ post"
      using Cons.prems run Returned by (simp add: Let_def)
    have whole: "no_partial rd fs (fs_after fs evs)"
      by (rule process_platform_prefix [OF run, of evs "[]"]) simp
    have fs1: "no_partial rd fs ?fs1"
      by (rule no_partial_cong [OF _ whole])
        (simp add: fs_after_append fs_after_Cons fs_after_Nil map_of_effect)
    from ev consider (inside) us where "pre @ us = evs"
      | (beyond) us where "pre = evs @ Sleep # us" "us @ post = ?rest"
    proof -
      from ev obtain us where
        "(evs = pre @ us \<and> us @ Sleep # ?rest = post) \<or> (evs @ us = pre \<and> Sleep # ?rest = us @ post)"
        by (auto simp: append_eq_append_conv2)
      then show ?thesis
      proof
        assume "evs = pre @ us \<and> us @ Sleep # ?rest = post"
        then show ?thesis using inside by simp
      next
        assume a: "evs @ us = pre \<and> Sleep # ?rest = us @ post"
        show ?thesis
        proof (cases us)
          case Nil
          then show ?thesis using a inside [of "[]"] by simp
        next
          case (Cons u us')
          then have "pre = evs @ Sleep # us'" "us' @ post = ?rest" using a by auto
          then show ?thesis by (rule beyond)
        qed
      qed
    qed
    then show ?thesis
    proof cases
      case inside
      then have "evs = pre @ us" by simp
      then show ?thesis by (rule process_platform_prefix [OF run])
    next
      case beyond
      have "no_partial rd ?fs1 (fs_after ?fs1 us)"
        using Cons.IH [of ?fs1 us post] beyond(2) by simp
      moreover have "fs_after fs pre = fs_after ?fs1 us"
        unfolding beyond(1) by (simp add: fs_after_append fs_after_Cons fs_after_Nil)
      ultimately show ?thesis using fs1 no_partial_trans by metis
    qed
  qed
qed

lemma fs_trace_prefix:
  "s \<in> set (fs_trace fs evs) \<Longrightarrow> \<exists>pre post. evs = pre @ post \<and> s = fs_after fs pre"
proof (induction evs arbitrary: fs)
  case Nil
  then show ?case by (simp add: fs_after_Nil)
next
  case (Cons e evs)
  from Cons.prems have "s = fs \<or> s \<in> set (fs_trace (effect fs e) evs)" by simp
  then show ?case
  proof
    assume "s = fs"
    then have "e # evs = [] @ (e # evs) \<and> s = fs_after fs []" by (simp add: fs_after_Nil)
    then show ?thesis by blast
  next
    assume "s \<in> set (fs_trace (effect fs e) evs)"
    then obtain pre post where "evs = pre @ post" "s = fs_after (effect fs e) pre"
      using Cons.IH by blast
    then have "e # evs = (e # pre) @ post \<and> s = fs_after fs (e # pre)"
      by (simp add: fs_after_Cons)
    then show ?thesis by blast
  qed
qed

text \<open>The same for the steps of the pool.\<close>

lemma task_step_to_rename:
  "task_step rd worker p ph fs = (PRename n, evs) \<Longrightarrow>
   evs = [] \<and> (\<exists>c. map_of fs (tmp_path_of (platform_to_filename p)) = Some c \<and> valid_file rd c)"
  by (auto simp: task_step_def Let_def valid_file_iff
      split: phase.splits outcome.splits list.splits ending.splits if_splits stderr.splits
        option.splits verdict.splits)

lemma task_step_quiet:
  "task_step rd worker p ph fs = (ph', evs) \<Longrightarrow> \<forall>n. ph \<noteq> PRename n \<Longrightarrow>
   set (concat (map touches evs)) \<subseteq> {tmp_path_of (platform_to_filename p)}"
  by (auto simp: task_step_def Let_def output_path_prompt
      split: phase.splits outcome.splits list.splits ending.splits if_splits stderr.splits
        option.splits verdict.splits)

lemma task_step_rename:
  "task_step rd worker p (PRename n) fs = (ph', evs) \<Longrightarrow>
   evs = [] \<or> evs = [Rename (tmp_path_of (platform_to_filename p)) (platform_to_filename p)]"
  by (auto simp: task_step_def Let_def split: if_splits)

lemma task_step_no_partial:
  assumes step: "task_step rd worker p ph fs = (ph', evs)"
    and k: "\<forall>n. ph = PRename n \<longrightarrow>
      (\<exists>c. map_of fs (tmp_path_of (platform_to_filename p)) = Some c \<and> valid_file rd c)"
  shows "no_partial rd fs (fs_after fs evs)"
proof (cases "\<exists>n. ph = PRename n")
  case False
  then have "set (concat (map touches evs)) \<subseteq> {tmp_path_of (platform_to_filename p)}"
    using task_step_quiet [OF step] by blast
  then have "\<forall>e \<in> set evs. \<forall>q \<in> set (touches e). is_tmp_name q"
    using is_tmp_name_tmp_path [of p] by auto
  then show ?thesis by (rule frame_no_partial)
next
  case True
  then obtain n where ph: "ph = PRename n" by blast
  then obtain c where c: "map_of fs (tmp_path_of (platform_to_filename p)) = Some c" "valid_file rd c"
    using k by blast
  from task_step_rename [OF step [unfolded ph]]
  show ?thesis
  proof
    assume "evs = []"
    then show ?thesis by (simp add: fs_after_Nil no_partial_refl)
  next
    assume "evs = [Rename (tmp_path_of (platform_to_filename p)) (platform_to_filename p)]"
    then show ?thesis
      using commit_no_partial [of "[]" fs "tmp_path_of (platform_to_filename p)" c rd "platform_to_filename p"]
        c is_tmp_name_tmp_path [of p]
      by (simp add: fs_after_Nil)
  qed
qed

lemma tmp_path_inj: "tmp_path_of a = tmp_path_of b \<Longrightarrow> a = b"
  by (simp add: tmp_path_of_def)

lemma submit_next_safe:
  assumes "pool_safe rd fs pool"
  shows "pool_safe rd fs (submit_next pool)"
proof (cases "pl_rest pool")
  case Nil
  then show ?thesis using assms by (simp add: submit_next_def)
next
  case (Cons p ps)
  show ?thesis
  proof (cases "p = []")
    case True
    then show ?thesis using assms Cons by (simp add: submit_next_def pool_safe_def)
  next
    case False
    then show ?thesis using assms Cons by (auto simp: submit_next_def pool_safe_def)
  qed
qed

lemma funpow_submit_safe: "pool_safe rd fs pool \<Longrightarrow> pool_safe rd fs ((submit_next ^^ j) pool)"
  by (induction j) (simp_all add: submit_next_safe)

lemma pool_init_safe:
  assumes "distinct (map platform_to_filename names)"
  shows "pool_safe rd fs (pool_init k names fs)"
proof -
  have "distinct (map platform_to_filename (filter (\<lambda>n. n \<noteq> []) names))"
    using assms by (rule distinct_map_filter)
  then show ?thesis
    unfolding pool_init_def
    by (intro funpow_submit_safe) (simp add: pool_safe_def no_partial_refl)
qed

lemma distinct_remove_nth:
  assumes "distinct (map f xs @ ys)" and "i < length xs"
  shows "distinct (map f (take i xs @ drop (Suc i) xs) @ ys)"
proof -
  have "xs = take i xs @ xs ! i # drop (Suc i) xs"
    using assms(2) by (rule id_take_nth_drop)
  then have "distinct (map f (take i xs @ xs ! i # drop (Suc i) xs) @ ys)"
    using assms(1) by metis
  then show ?thesis by auto
qed

lemma set_remove_nth: "set (take i xs @ drop (Suc i) xs) \<subseteq> set xs"
  using set_take_subset [of i xs] set_drop_subset [of "Suc i" xs] by auto

lemma pool_step_safe:
  fixes pool :: "'c pool"
  assumes safe: "pool_safe rd fs pool"
  shows "pool_safe rd fs (pool_step rd worker pool act)"
proof (cases act)
  case (Run i)
  show ?thesis
  proof (cases "i < length (pl_pending pool)")
    case False
    then show ?thesis using safe Run by (simp add: pool_step_def)
  next
    case True
    define t where "t = pl_pending pool ! i"
    define p where "p = t_platform t"
    obtain ph evs where step: "task_step rd worker p (t_phase t) (pl_store pool) = (ph, evs)"
      by (cases "task_step rd worker p (t_phase t) (pl_store pool)")
    define store' where "store' = fs_after (pl_store pool) evs"
    define pending' where "pending' = (pl_pending pool)[i := t\<lparr>t_phase := ph\<rparr>]"
    have new: "pool_step rd worker pool act =
        pool\<lparr>pl_store := store', pl_pending := pending',
             pl_run := (pl_run pool)\<lparr>r_events := r_events (pl_run pool) @ evs\<rparr>\<rparr>"
      using True Run step
      by (simp add: pool_step_def Let_def t_def p_def store'_def pending'_def)
    have tin: "t \<in> set (pl_pending pool)" using True by (simp add: t_def)
    have k: "\<forall>n. t_phase t = PRename n \<longrightarrow>
        (\<exists>c. map_of (pl_store pool) (tmp_path_of (platform_to_filename p)) = Some c \<and> valid_file rd c)"
      using safe tin unfolding pool_safe_def p_def by blast
    have "no_partial rd (pl_store pool) store'"
      unfolding store'_def by (rule task_step_no_partial [OF step k])
    moreover have "no_partial rd fs (pl_store pool)" using safe by (simp add: pool_safe_def)
    ultimately have np: "no_partial rd fs store'" using no_partial_trans by metis
    have keys: "map (\<lambda>t. platform_to_filename (t_platform t)) pending' =
        map (\<lambda>t. platform_to_filename (t_platform t)) (pl_pending pool)"
      unfolding pending'_def using True
      by (simp add: map_update t_def list_update_same_conv)
    have dist: "distinct (map (\<lambda>t. platform_to_filename (t_platform t)) (pl_pending pool))"
      using safe by (simp add: pool_safe_def)
    have kk: "\<exists>c. map_of store' (tmp_path_of (platform_to_filename (t_platform u))) = Some c \<and>
        valid_file rd c"
      if u: "u \<in> set pending'" and r: "t_phase u = PRename n" for u n
    proof -
      from u obtain j where j: "j < length pending'" "pending' ! j = u"
        by (auto simp: in_set_conv_nth)
      then have jl: "j < length (pl_pending pool)" by (simp add: pending'_def)
      show ?thesis
      proof (cases "j = i")
        case True
        then have u_eq: "u = t\<lparr>t_phase := ph\<rparr>" using j jl by (simp add: pending'_def)
        then have "ph = PRename n" using r by simp
        then have "evs = [] \<and> (\<exists>c. map_of (pl_store pool) (tmp_path_of (platform_to_filename p)) = Some c \<and> valid_file rd c)"
          using task_step_to_rename [of rd worker p "t_phase t" "pl_store pool" n evs] step by simp
        then show ?thesis by (simp add: store'_def fs_after_Nil u_eq p_def)
      next
        case False
        then have u_eq: "u = pl_pending pool ! j" using j jl by (simp add: pending'_def)
        then have uin: "u \<in> set (pl_pending pool)" using jl by simp
        then obtain c where c: "map_of (pl_store pool) (tmp_path_of (platform_to_filename (t_platform u))) = Some c"
            "valid_file rd c"
          using safe r unfolding pool_safe_def by blast
        have "map (\<lambda>t. platform_to_filename (t_platform t)) (pl_pending pool) ! j \<noteq>
              map (\<lambda>t. platform_to_filename (t_platform t)) (pl_pending pool) ! i"
          using dist False jl True by (simp add: nth_eq_iff_index_eq del: nth_map)
        then have kne: "platform_to_filename (t_platform u) \<noteq> platform_to_filename p"
          using jl True by (simp add: u_eq p_def t_def)
        have "tmp_path_of (platform_to_filename (t_platform u)) \<notin>
              {tmp_path_of (platform_to_filename p), platform_to_filename p}"
          using kne tmp_path_neq [of "platform_to_filename (t_platform u)" p]
          by (auto dest: tmp_path_inj)
        then have "tmp_path_of (platform_to_filename (t_platform u)) \<notin> set (concat (map touches evs))"
          using task_step_touches [OF step] by blast
        then have "map_of store' (tmp_path_of (platform_to_filename (t_platform u))) =
            map_of (pl_store pool) (tmp_path_of (platform_to_filename (t_platform u)))"
          unfolding store'_def by (rule fs_after_frame)
        then show ?thesis using c by simp
      qed
    qed
    have d': "distinct (map (\<lambda>t. platform_to_filename (t_platform t)) pending' @
               map platform_to_filename (filter (\<lambda>n. n \<noteq> []) (pl_rest pool)))"
      unfolding keys using safe by (simp add: pool_safe_def)
    show ?thesis
      unfolding new pool_safe_def using np d' kk by simp
  qed
next
  case (Collect i)
  show ?thesis
  proof (cases "i < length (pl_pending pool) \<and> \<not> r_cancelled (pl_run pool)")
    case False
    then show ?thesis using safe Collect by (auto simp: pool_step_def)
  next
    case True
    define others where "others = take i (pl_pending pool) @ drop (Suc i) (pl_pending pool)"
    have sub: "set others \<subseteq> set (pl_pending pool)"
      unfolding others_def by (rule set_remove_nth)
    have d: "distinct (map (\<lambda>t. platform_to_filename (t_platform t)) others @
               map platform_to_filename (filter (\<lambda>n. n \<noteq> []) (pl_rest pool)))"
      unfolding others_def using safe True
      by (intro distinct_remove_nth) (simp_all add: pool_safe_def)
    have base: "pool_safe rd fs (pool\<lparr>pl_pending := others, pl_run := r\<rparr>)" for r
      unfolding pool_safe_def using safe d sub by (auto simp: pool_safe_def)
    show ?thesis
    proof (cases "t_phase (pl_pending pool ! i)")
      case (PDone res)
      show ?thesis
      proof (cases res)
        case KeyboardInterrupt
        then show ?thesis
          using True Collect PDone base
          by (simp add: pool_step_def Let_def others_def)
      next
        case (Returned q ok msg)
        have sn: "pool_safe rd fs (submit_next (pool\<lparr>pl_pending := others, pl_run := r\<rparr>))" for r
          by (rule submit_next_safe [OF base])
        show ?thesis
          using True Collect PDone Returned sn
          by (auto simp: pool_step_def Let_def others_def)
      qed
    qed (use safe True Collect in \<open>simp_all add: pool_step_def\<close>)
  qed
next
  case Interrupt
  then show ?thesis using safe by (simp add: pool_step_def pool_safe_def)
qed

lemma pool_run_safe:
  assumes "distinct (map platform_to_filename names)"
  shows "pool_safe rd fs (pool_run rd worker k names sched fs)"
proof (induction sched rule: rev_induct)
  case Nil
  then show ?case by (simp add: pool_run_def pool_init_safe [OF assms])
next
  case (snoc a sched)
  then show ?case by (simp add: pool_run_snoc pool_step_safe)
qed


lemma tmp_name_not_scanned: "is_tmp_name n \<Longrightarrow> n \<notin> set (scanned_files fs)"
proof
  assume t: "is_tmp_name n" and "n \<in> set (scanned_files fs)"
  then have c: "ends_with ''.csv'' n" by (simp add: scanned_files_set)
  from t have "drop (length n - length ''.tmp'') n = ''.tmp''"
    by (simp add: is_tmp_name_def ends_with_def)
  moreover from c have "drop (length n - length ''.csv'') n = ''.csv''"
    by (simp add: ends_with_def)
  ultimately show False by simp
qed

text \<open>
  C1. The prompt names the temporary path of the platform as the place to write, and the
  external process is taken to write there. That path is not the final path of any
  platform and is not among the files that \<^verbatim>\<open>combine_all_csvs\<close> reads. In the events of a
  call every write of the process is at the temporary path, and a rename, if there is one,
  is the last event, from the temporary path to the final path, of a file that has passed
  the validation. So in every state that the directory goes through during the sequential
  loop, and in every state that the pool can reach, in whatever order its threads take
  their steps, when the platforms have pairwise distinct file names, every path that is
  not a temporary name holds what it held when the loop started or a file that passes the
  validation.
\<close>

theorem atomic_commit:
  "p_output_path (prompt_of p) = tmp_path_of (platform_to_filename p) \<and>
   is_tmp_name (tmp_path_of (platform_to_filename p)) \<and>
   tmp_path_of (platform_to_filename p) \<noteq> platform_to_filename q \<and>
   tmp_path_of (platform_to_filename p) \<notin> set (scanned_files fs') \<and>
   (\<forall>res evs. process_platform rd worker p d fs = (res, evs) \<longrightarrow>
      (\<forall>path c. WorkerWrite path c \<in> set evs \<longrightarrow> path = tmp_path_of (platform_to_filename p)) \<and>
      (\<forall>src dst. Rename src dst \<in> set evs \<longrightarrow>
         (\<exists>body c. evs = body @ [Rename (tmp_path_of (platform_to_filename p)) (platform_to_filename p)] \<and>
            (\<forall>a b. Rename a b \<notin> set body) \<and>
            map_of (fs_after fs body) (tmp_path_of (platform_to_filename p)) = Some c \<and>
            valid_file rd c))) \<and>
   (\<forall>s \<in> set (fs_trace fs (r_events (run_sequential rd worker names fs))). no_partial rd fs s) \<and>
   (distinct (map platform_to_filename names) \<longrightarrow>
      no_partial rd fs (pl_store (pool_run rd worker k names sched fs)))"
proof -
  let ?tmp = "tmp_path_of (platform_to_filename p)"
  have calls: "(\<forall>path c. WorkerWrite path c \<in> set evs \<longrightarrow> path = ?tmp) \<and>
      (\<forall>src dst. Rename src dst \<in> set evs \<longrightarrow>
         (\<exists>body c. evs = body @ [Rename ?tmp (platform_to_filename p)] \<and>
            (\<forall>a b. Rename a b \<notin> set body) \<and>
            map_of (fs_after fs body) ?tmp = Some c \<and> valid_file rd c))"
    if run: "process_platform rd worker p d fs = (res, evs)" for res evs
  proof -
    from process_platform_shape [OF run]
    consider (quiet) "\<forall>e \<in> set evs. set (touches e) \<subseteq> {?tmp} \<and> (\<forall>a b. e \<noteq> Rename a b)"
      | (commit) body c where "evs = body @ [Rename ?tmp (platform_to_filename p)]"
          "\<forall>e \<in> set body. set (touches e) \<subseteq> {?tmp} \<and> (\<forall>a b. e \<noteq> Rename a b)"
          "map_of (fs_after fs body) ?tmp = Some c" "valid_file rd c"
      by blast
    then show ?thesis
    proof cases
      case quiet
      have "path = ?tmp" if "WorkerWrite path c \<in> set evs" for path c
        using quiet that by fastforce
      moreover have "Rename src dst \<notin> set evs" for src dst
        using quiet by blast
      ultimately show ?thesis by blast
    next
      case commit
      have "path = ?tmp" if "WorkerWrite path c \<in> set evs" for path c
      proof -
        from that have "WorkerWrite path c \<in> set body" using commit(1) by simp
        then show ?thesis using commit(2) by fastforce
      qed
      moreover have "\<forall>a b. Rename a b \<notin> set body" using commit(2) by blast
      ultimately show ?thesis using commit(1,3,4) by blast
    qed
  qed
  have seq: "no_partial rd fs s"
    if "s \<in> set (fs_trace fs (r_events (run_sequential rd worker names fs)))" for s
  proof -
    from fs_trace_prefix [OF that] obtain pre post where
      "r_events (run_sequential rd worker names fs) = pre @ post" "s = fs_after fs pre"
      by blast
    then show ?thesis using run_sequential_prefix by metis
  qed
  have par: "no_partial rd fs (pl_store (pool_run rd worker k names sched fs))"
    if "distinct (map platform_to_filename names)"
    using pool_run_safe [OF that, of rd fs worker k sched] by (simp add: pool_safe_def)
  show ?thesis
    using output_path_prompt [of p] is_tmp_name_tmp_path [of p]
      tmp_path_neq [of "platform_to_filename p" q]
      tmp_name_not_scanned [OF is_tmp_name_tmp_path, of p fs'] calls seq par
    by blast
qed

theorem atomic_commit_witness:
  "distinct (map platform_to_filename [''A'', ''B'']) \<and>
   \<not> is_tmp_name ''a.csv'' \<and>
   map_of (pl_store (pool_run (\<lambda>c. c)
      (\<lambda>pr. Exited 0 StderrEmpty [ReadError ''partial'', Reads (Some fieldnames) [[(''platform'', PyStr (p_platform pr))]] None])
      2 [''A'', ''B''] [Run 0, Run 0, Run 0, Run 1, Run 1, Run 1, Run 0, Run 0, Run 0, Run 0, Run 0]
      ([] :: read_run store))) ''a.csv'' \<noteq> None \<and>
   (\<exists>c. map_of (pl_store (pool_run (\<lambda>c. c)
      (\<lambda>pr. Exited 0 StderrEmpty [ReadError ''partial'', Reads (Some fieldnames) [[(''platform'', PyStr (p_platform pr))]] None])
      2 [''A'', ''B''] [Run 0, Run 0, Run 0, Run 1, Run 1, Run 1, Run 0, Run 0, Run 0, Run 0, Run 0]
      ([] :: read_run store))) ''a.csv'' = Some c \<and> valid_file (\<lambda>c. c) c) \<and>
   map_of (pl_store (pool_run (\<lambda>c. c)
      (\<lambda>pr. Exited 0 StderrEmpty [ReadError ''partial'', Reads (Some fieldnames) [[(''platform'', PyStr (p_platform pr))]] None])
      2 [''A'', ''B''] [Run 0, Run 0, Run 0, Run 1, Run 1, Run 1, Run 0, Run 0, Run 0, Run 0, Run 0]
      ([] :: read_run store))) ''b.csv'' = None \<and>
   fs_after [] (r_events (run_sequential (\<lambda>c. c)
      (\<lambda>pr. Exited 0 StderrEmpty [ReadError ''partial'', Reads (Some fieldnames) [[(''platform'', PyStr (p_platform pr))]] None])
      [''A'', ''B''] ([] :: read_run store))) \<in>
     set (fs_trace [] (r_events (run_sequential (\<lambda>c. c)
      (\<lambda>pr. Exited 0 StderrEmpty [ReadError ''partial'', Reads (Some fieldnames) [[(''platform'', PyStr (p_platform pr))]] None])
      [''A'', ''B''] ([] :: read_run store)))) \<and>
   (\<exists>c. map_of (fs_after [] (r_events (run_sequential (\<lambda>c. c)
      (\<lambda>pr. Exited 0 StderrEmpty [ReadError ''partial'', Reads (Some fieldnames) [[(''platform'', PyStr (p_platform pr))]] None])
      [''A'', ''B''] ([] :: read_run store)))) ''b.csv'' = Some c \<and> valid_file (\<lambda>c. c) c) \<and>
   Rename ''.a.csv.tmp'' ''a.csv'' \<in> set (snd (process_platform (\<lambda>c. c)
      (\<lambda>pr. Exited 0 StderrEmpty [ReadError ''partial'', Reads (Some fieldnames) [[(''platform'', PyStr (p_platform pr))]] None])
      ''A'' False ([] :: read_run store))) \<and>
   (\<exists>body c. snd (process_platform (\<lambda>c. c)
      (\<lambda>pr. Exited 0 StderrEmpty [ReadError ''partial'', Reads (Some fieldnames) [[(''platform'', PyStr (p_platform pr))]] None])
      ''A'' False ([] :: read_run store)) = body @ [Rename ''.a.csv.tmp'' ''a.csv''] \<and>
      (\<forall>a b. Rename a b \<notin> set body) \<and>
      map_of (fs_after [] body) ''.a.csv.tmp'' = Some c \<and> valid_file (\<lambda>c. c) c)"
proof -
  define names where "names = [''A'', ''B'']"
  define W :: "prompt \<Rightarrow> read_run outcome" where
    "W = (\<lambda>pr. Exited 0 StderrEmpty [ReadError ''partial'', Reads (Some fieldnames) [[(''platform'', PyStr (p_platform pr))]] None])"
  define sched where
    "sched = [Run 0, Run 0, Run 0, Run 1, Run 1, Run 1, Run 0, Run 0, Run 0, Run 0, Run 0]"
  define store where "store = pl_store (pool_run (\<lambda>c. c) W 2 names sched ([] :: read_run store))"
  define evs where "evs = r_events (run_sequential (\<lambda>c. c) W names ([] :: read_run store))"
  define call where "call = process_platform (\<lambda>c. c) W ''A'' False ([] :: read_run store)"
  have d: "distinct (map platform_to_filename names)"
    unfolding names_def by code_simp
  have nt: "\<not> is_tmp_name ''a.csv''" "\<not> is_tmp_name ''b.csv''" by code_simp+
  have key: "platform_to_filename ''A'' = ''a.csv''"
    and tmp: "tmp_path_of ''a.csv'' = ''.a.csv.tmp''" by code_simp+
  have a: "map_of store ''a.csv'' \<noteq> None"
    unfolding store_def names_def W_def sched_def by code_simp
  have b: "map_of store ''b.csv'' = None"
    unfolding store_def names_def W_def sched_def by code_simp
  have last: "fs_after [] evs \<in> set (fs_trace [] evs)"
    unfolding evs_def names_def W_def by code_simp
  have sb: "map_of (fs_after [] evs) ''b.csv'' \<noteq> map_of ([] :: read_run store) ''b.csv''"
    unfolding evs_def names_def W_def by code_simp
  have rn: "Rename ''.a.csv.tmp'' ''a.csv'' \<in> set (snd call)"
    unfolding call_def W_def by code_simp
  note th = atomic_commit [of "''A''" "''A''" "[]" "\<lambda>c. c" W False "[]" names 2 sched]
  have "no_partial (\<lambda>c. c) [] store"
    using th d unfolding store_def by blast
  then have "map_of store ''a.csv'' = map_of ([] :: read_run store) ''a.csv'' \<or>
      (\<exists>c. map_of store ''a.csv'' = Some c \<and> valid_file (\<lambda>c. c) c)"
    using nt unfolding no_partial_def by blast
  then have par: "\<exists>c. map_of store ''a.csv'' = Some c \<and> valid_file (\<lambda>c. c) c"
    using a by simp
  have "no_partial (\<lambda>c. c) [] (fs_after [] evs)"
    using th last unfolding evs_def by blast
  then have "map_of (fs_after [] evs) ''b.csv'' = map_of ([] :: read_run store) ''b.csv'' \<or>
      (\<exists>c. map_of (fs_after [] evs) ''b.csv'' = Some c \<and> valid_file (\<lambda>c. c) c)"
    using nt unfolding no_partial_def by blast
  then have seq: "\<exists>c. map_of (fs_after [] evs) ''b.csv'' = Some c \<and> valid_file (\<lambda>c. c) c"
    using sb by blast
  have "process_platform (\<lambda>c. c) W ''A'' False ([] :: read_run store) = (fst call, snd call)"
    by (simp add: call_def)
  then have "\<forall>src dst. Rename src dst \<in> set (snd call) \<longrightarrow>
      (\<exists>body c. snd call = body @ [Rename (tmp_path_of (platform_to_filename ''A'')) (platform_to_filename ''A'')] \<and>
         (\<forall>a b. Rename a b \<notin> set body) \<and>
         map_of (fs_after [] body) (tmp_path_of (platform_to_filename ''A'')) = Some c \<and>
         valid_file (\<lambda>c. c) c)"
    using th by blast
  then have body: "\<exists>body c. snd call = body @ [Rename ''.a.csv.tmp'' ''a.csv''] \<and>
         (\<forall>a b. Rename a b \<notin> set body) \<and>
         map_of (fs_after [] body) ''.a.csv.tmp'' = Some c \<and> valid_file (\<lambda>c. c) c"
    using rn unfolding key tmp by blast
  show ?thesis
    using d nt(1) a par b last seq rn body
    unfolding store_def evs_def call_def names_def W_def sched_def by blast
qed

text \<open>
  C1 as stated fails in the pool when two platforms have the same file name, and so the
  same temporary path: the call for \<^verbatim>\<open>Sega CD\<close> has validated its file, the process of the
  call for \<^verbatim>\<open>Sega-CD\<close> then writes the beginning of its answer at the same temporary path,
  and the rename of the first call puts that file at the final path.
\<close>

theorem colliding_names_expose_partial_file:
  "platform_to_filename ''Sega CD'' = ''sega_cd.csv'' \<and>
   platform_to_filename ''Sega-CD'' = ''sega_cd.csv'' \<and>
   map_of (pl_store (pool_run (\<lambda>c. c)
      (\<lambda>pr. if p_platform pr = ''Sega CD''
             then Exited 0 StderrEmpty [Reads (Some fieldnames) [[(''platform'', PyStr ''Sega CD'')]] None]
             else TimedOut [ReadError ''truncated''])
      2 [''Sega CD'', ''Sega-CD'']
      [Run 1, Run 1, Run 0, Run 0, Run 0, Run 0, Run 0, Run 0, Run 1, Run 0]
      ([] :: read_run store))) ''sega_cd.csv'' = Some (ReadError ''truncated'') \<and>
   validate_csv (ReadError ''truncated'') = InvalidCSV ''truncated'' \<and>
   \<not> valid_file (\<lambda>c. c) (ReadError ''truncated'') \<and>
   map (\<lambda>t. (t_platform t, t_phase t)) (pl_pending (pool_run (\<lambda>c. c)
      (\<lambda>pr. if p_platform pr = ''Sega CD''
             then Exited 0 StderrEmpty [Reads (Some fieldnames) [[(''platform'', PyStr ''Sega CD'')]] None]
             else TimedOut [ReadError ''truncated''])
      2 [''Sega CD'', ''Sega-CD'']
      [Run 1, Run 1, Run 0, Run 0, Run 0, Run 0, Run 0, Run 0, Run 1, Run 0]
      ([] :: read_run store))) =
     [(''Sega CD'', PDone (Returned ''Sega CD'' True (Created ''sega_cd.csv'' 1))),
      (''Sega-CD'', PRunning EndTimeout [])]"
  by code_simp

end
